theory Spec2Isabelle
  imports Main "HOL-Library.Sublist"
begin

section \<open>Python strings\<close>

text \<open>
  The program is \<^verbatim>\<open>sketchfab_downloader_standalone.py\<close>. A Python \<^verbatim>\<open>str\<close> is modelled
  as a \<^typ>\<open>string\<close>; a \<^typ>\<open>char\<close> stands for the code point of the same number, so the
  model covers the strings over the code points below 256, where \<^verbatim>\<open>str.lower\<close>,
  \<^verbatim>\<open>str.isspace\<close> and \<^verbatim>\<open>str.isalnum\<close> work character by character as
  tabulated here.
\<close>

definition isspace :: "char \<Rightarrow> bool" where
  "isspace c = (let n = (of_char c :: nat) in
     (9 \<le> n \<and> n \<le> 13) \<or> (28 \<le> n \<and> n \<le> 32) \<or> n = 133 \<or> n = 160)"

definition isalnum :: "char \<Rightarrow> bool" where
  "isalnum c = (let n = (of_char c :: nat) in
     (48 \<le> n \<and> n \<le> 57) \<or> (65 \<le> n \<and> n \<le> 90) \<or> (97 \<le> n \<and> n \<le> 122) \<or>
     n = 170 \<or> n = 178 \<or> n = 179 \<or> n = 181 \<or> n = 185 \<or> n = 186 \<or>
     (188 \<le> n \<and> n \<le> 190) \<or> (192 \<le> n \<and> n \<le> 214) \<or> (216 \<le> n \<and> n \<le> 246) \<or>
     248 \<le> n)"

definition lower_char :: "char \<Rightarrow> char" where
  "lower_char c = (let n = (of_char c :: nat) in
     if (65 \<le> n \<and> n \<le> 90) \<or> (192 \<le> n \<and> n \<le> 222 \<and> n \<noteq> 215)
     then char_of (n + 32) else c)"

definition lower :: "string \<Rightarrow> string" where
  "lower s = map lower_char s"

text \<open>\<^verbatim>\<open>s.strip()\<close>: leading and trailing whitespace removed.\<close>

definition strip :: "string \<Rightarrow> string" where
  "strip s = rev (dropWhile isspace (rev (dropWhile isspace s)))"

text \<open>\<^verbatim>\<open>s.replace(a, b)\<close> for one-character \<^verbatim>\<open>a\<close> and \<^verbatim>\<open>b\<close>.\<close>

definition replace :: "char \<Rightarrow> char \<Rightarrow> string \<Rightarrow> string" where
  "replace a b s = map (\<lambda>c. if c = a then b else c) s"

text \<open>\<^verbatim>\<open>needle in hay\<close>: \<^verbatim>\<open>needle\<close> occurs in \<^verbatim>\<open>hay\<close> as a contiguous run.\<close>

fun contains :: "string \<Rightarrow> string \<Rightarrow> bool" where
  "contains needle [] = (needle = [])"
| "contains needle (c # cs) = (prefix needle (c # cs) \<or> contains needle cs)"

text \<open>
  \<^verbatim>\<open>s.split(sep)\<close> for a one-character separator: the pieces between the occurrences
  of \<^verbatim>\<open>sep\<close>, never an empty list, so \<^verbatim>\<open>[0]\<close> and \<^verbatim>\<open>[-1]\<close> on it cannot raise.
\<close>

fun split_py :: "char \<Rightarrow> string \<Rightarrow> string list" where
  "split_py sep [] = [[]]"
| "split_py sep (c # cs) =
     (if c = sep then [] # split_py sep cs
      else (case split_py sep cs of
              [] \<Rightarrow> [[c]]
            | piece # pieces \<Rightarrow> (c # piece) # pieces))"

section \<open>License matching (lines 109--139)\<close>

text \<open>\<^verbatim>\<open>s.replace('-', ' ').replace('_', ' ')\<close>, as lines 121 and 122 apply it.\<close>

definition normalized :: "string \<Rightarrow> string" where
  "normalized s = replace CHR ''_'' CHR '' '' (replace CHR ''-'' CHR '' '' s)"

text \<open>
  The \<^verbatim>\<open>for allowed in allowed_licenses\<close> loop, with \<^verbatim>\<open>license_label_lower\<close> already
  computed; each \<^verbatim>\<open>break\<close> after \<^verbatim>\<open>license_matches = True\<close> is the value \<open>True\<close>,
  falling off the end of the list leaves \<open>False\<close>.
\<close>

fun license_loop :: "string \<Rightarrow> string list \<Rightarrow> bool" where
  "license_loop license_label_lower [] = False"
| "license_loop license_label_lower (allowed # rest) =
     (let allowed_lower = strip (lower allowed) in
      if license_label_lower = allowed_lower then True
      else
        let license_normalized = normalized license_label_lower;
            allowed_normalized = normalized allowed_lower
        in
          if license_normalized = allowed_normalized then True
          else if allowed_lower = ''by'' \<and>
                  (contains ''attribution'' license_normalized \<or>
                   (contains ''cc'' license_normalized \<and> contains ''by'' license_normalized)) \<and>
                  (\<not> contains ''nc'' license_normalized \<and>
                   \<not> contains ''nd'' license_normalized \<and>
                   \<not> contains ''sa'' license_normalized \<and>
                   \<not> contains ''noncommercial'' license_normalized \<and>
                   \<not> contains ''noderivatives'' license_normalized \<and>
                   \<not> contains ''sharealike'' license_normalized)
          then True
          else if allowed_lower = ''cc0'' \<and>
                  (contains ''cc0'' license_normalized \<or> contains ''cc 0'' license_normalized)
          then True
          else license_loop license_label_lower rest)"

text \<open>
  Lines 109--139 as a function of \<^verbatim>\<open>license_label\<close> and \<^verbatim>\<open>allowed_licenses\<close>.
\<close>

definition license_matches :: "string \<Rightarrow> string list \<Rightarrow> bool" where
  "license_matches license_label allowed_licenses =
     license_loop (strip (lower license_label)) allowed_licenses"

text \<open>
  The predicate on a raw label and a raw token list: line 97 lowercases the label and
  line 64 lowercases every token before the check of lines 109--139 runs.
\<close>

definition match_license :: "string \<Rightarrow> string list \<Rightarrow> bool" where
  "match_license label allowed = license_matches (lower label) (map lower allowed)"

text \<open>
  The normal form the specification speaks of: lowercased, trimmed, hyphens and
  underscores replaced by spaces.
\<close>

definition spec_normalize :: "string \<Rightarrow> string" where
  "spec_normalize label = normalized (strip (lower label))"

section \<open>File names (lines 100--101 and 176--181)\<close>

text \<open>
  Lines 100--101: the characters of \<^verbatim>\<open>model_name\<close> that are alphanumeric, a space, a
  hyphen or an underscore, stripped, then the first 100 of them.
\<close>

definition safe_name :: "string \<Rightarrow> string" where
  "safe_name model_name =
     take 100 (strip (filter (\<lambda>c. isalnum c \<or> c \<in> {CHR '' '', CHR ''-'', CHR ''_''}) model_name))"

text \<open>Lines 177--179: \<^verbatim>\<open>ext\<close>, computed from \<^verbatim>\<open>download_url\<close>.\<close>

definition extension :: "string \<Rightarrow> string" where
  "extension download_url =
     (if CHR ''.'' \<in> set (last (split_py CHR ''/'' download_url))
      then ''.'' @ hd (split_py CHR ''?'' (last (split_py CHR ''.'' download_url)))
      else ''.zip'')"

text \<open>
  \<^verbatim>\<open>model.get("uid")\<close> is \<^verbatim>\<open>None\<close> when the entry has no identifier; an f-string prints
  that as the text \<^verbatim>\<open>None\<close>.
\<close>

definition str_uid :: "string option \<Rightarrow> string" where
  "str_uid model_uid = (case model_uid of None \<Rightarrow> ''None'' | Some u \<Rightarrow> u)"

text \<open>
  Line 181: the name of the destination file inside \<^verbatim>\<open>output_path\<close>,
  \<^verbatim>\<open>f"{safe_name}_{model_uid}{ext}"\<close>.
\<close>

definition filename :: "string \<Rightarrow> string option \<Rightarrow> string \<Rightarrow> string" where
  "filename safe model_uid ext = safe @ ''_'' @ str_uid model_uid @ ext"

text \<open>
  Two operations to speak about the pieces of a location: the text after the last
  occurrence of a separator (the whole text when there is none), and the text before
  its first occurrence.
\<close>

definition after_last :: "char \<Rightarrow> string \<Rightarrow> string" where
  "after_last sep s = rev (takeWhile (\<lambda>c. c \<noteq> sep) (rev s))"

definition before_first :: "char \<Rightarrow> string \<Rightarrow> string" where
  "before_first sep s = takeWhile (\<lambda>c. c \<noteq> sep) s"

text \<open>
  The extension as the specification words it: the path of the location is the location
  without its query string, the final path segment is the text after the last slash of
  the path, and the extension is a dot and the text after the last dot of that segment,
  or \<^verbatim>\<open>.zip\<close> when the segment contains no dot.
\<close>

definition spec_extension :: "string \<Rightarrow> string" where
  "spec_extension location =
     (let segment = after_last CHR ''/'' (before_first CHR ''?'' location) in
      if CHR ''.'' \<in> set segment then CHR ''.'' # after_last CHR ''.'' segment else ''.zip'')"

text \<open>The query string of a location, from its first question mark on.\<close>

definition query_of :: "string \<Rightarrow> string" where
  "query_of location = dropWhile (\<lambda>c. c \<noteq> CHR ''?'') location"

section \<open>Catalog entries, exceptions and the remote service\<close>

text \<open>
  The exceptions the program can meet. \<^verbatim>\<open>except Exception\<close> (line 212) catches every
  class derived from \<^verbatim>\<open>Exception\<close>; \<^verbatim>\<open>KeyboardInterrupt\<close> derives from
  \<^verbatim>\<open>BaseException\<close> only.
\<close>

datatype exn =
  ConnectionError | Timeout | HTTPError | JSONDecodeError | OSError | AttributeError
  | KeyboardInterrupt

definition is_Exception :: "exn \<Rightarrow> bool" where
  "is_Exception e = (e \<noteq> KeyboardInterrupt)"

text \<open>
  The exceptions of the transport layer: those \<^verbatim>\<open>requests\<close> raises for a connection
  that fails, a timeout, or a status that \<^verbatim>\<open>raise_for_status\<close> rejects.
\<close>

definition transport_layer :: "exn \<Rightarrow> bool" where
  "transport_layer e = (e = ConnectionError \<or> e = Timeout \<or> e = HTTPError)"

text \<open>
  A key of a JSON object: missing, present with \<^verbatim>\<open>null\<close>, or present with a value.
\<close>

datatype 'a field = Missing | Null | Val 'a

text \<open>
  A catalog entry as the loop reads it (lines 93--97): \<^verbatim>\<open>uid\<close>, \<^verbatim>\<open>name\<close>,
  \<^verbatim>\<open>isDownloadable\<close> (a missing key reads as \<^verbatim>\<open>False\<close>) and \<^verbatim>\<open>license\<close>, whose
  value holds the key \<^verbatim>\<open>label\<close>.
\<close>

record model =
  uid :: "string option"
  name :: "string option"
  isDownloadable :: bool
  license :: "string field field"

text \<open>
  Lines 96--97. \<^verbatim>\<open>model.get("license", {})\<close> is \<^verbatim>\<open>None\<close> for a \<^verbatim>\<open>null\<close> license, and
  \<^verbatim>\<open>None.get\<close> raises \<^verbatim>\<open>AttributeError\<close>; so does \<^verbatim>\<open>None.lower()\<close> for a \<^verbatim>\<open>null\<close>
  label. A missing key reads as \<^verbatim>\<open>"unknown"\<close>.
\<close>

definition license_label :: "model \<Rightarrow> exn + string" where
  "license_label m =
     (case license m of
        Missing \<Rightarrow> Inr (lower ''unknown'')
      | Null \<Rightarrow> Inl AttributeError
      | Val license_info \<Rightarrow>
          (case license_info of
             Missing \<Rightarrow> Inr (lower ''unknown'')
           | Null \<Rightarrow> Inl AttributeError
           | Val label \<Rightarrow> Inr (lower label)))"

text \<open>Line 94: \<^verbatim>\<open>model.get("name", "unknown")\<close>.\<close>

definition model_name :: "model \<Rightarrow> string" where
  "model_name m = (case name m of None \<Rightarrow> ''unknown'' | Some n \<Rightarrow> n)"

text \<open>
  What \<^verbatim>\<open>requests.get\<close> gives back: it raises, or it returns a response with a status
  code and a body; the body is \<open>None\<close> when it is not JSON, and \<^verbatim>\<open>response.json()\<close>
  raises then.
\<close>

datatype 'a reply = Raises exn | Response nat "'a option"

text \<open>A page of the listing: \<^verbatim>\<open>data.get("results", [])\<close> and \<^verbatim>\<open>data.get("next")\<close>.\<close>

record page =
  results :: "model list"
  next_url :: "string option"

text \<open>
  The body of the download-resolution endpoint: \<^verbatim>\<open>data["source"]["url"]\<close> and
  \<^verbatim>\<open>data["gltf"]["url"]\<close>, each missing, \<^verbatim>\<open>null\<close> or a text.
\<close>

record download_info =
  source_url :: "string field"
  gltf_url :: "string field"

text \<open>
  The transfer of line 192: \<^verbatim>\<open>requests.get\<close> raises, or returns a response with a
  status code and a body stream, which is read and written completely (\<open>None\<close>) or
  raises on the way. The \<^verbatim>\<open>content-length\<close> header, when present, is taken to be a
  number, so line 195 does not raise.
\<close>

datatype transfer_reply = TransferRaises exn | TransferResponse nat "exn option"

text \<open>
  The requests the program issues. A listing request carries its URL and its
  \<^verbatim>\<open>params\<close> (\<^verbatim>\<open>user\<close> and \<^verbatim>\<open>count\<close>, or \<^verbatim>\<open>None\<close>); a resolution and a transfer
  request carry the position \<^verbatim>\<open>i\<close> of the entry they are issued for.
\<close>

datatype request =
  Listing string "(string \<times> nat) option"
  | Resolve nat string
  | Transfer nat string

text \<open>
  The world outside the program, deterministic: the reply to the \<open>k\<close>-th listing
  request, the replies to the resolution and the transfer request of the \<open>i\<close>-th entry,
  and whether opening a file for writing raises there.
\<close>

record env =
  list_models :: "nat \<Rightarrow> string \<Rightarrow> (string \<times> nat) option \<Rightarrow> page reply"
  resolve :: "nat \<Rightarrow> string \<Rightarrow> download_info reply"
  transfer :: "nat \<Rightarrow> string \<Rightarrow> transfer_reply"
  open_file :: "nat \<Rightarrow> string \<Rightarrow> exn option"

definition base_url :: string where
  "base_url = ''https://api.sketchfab.com/v3''"

section \<open>The catalog fetcher (lines 22--52)\<close>

text \<open>
  The \<^verbatim>\<open>while url:\<close> loop. Its state is the number \<open>k\<close> of requests issued so far,
  \<^verbatim>\<open>url\<close>, \<^verbatim>\<open>params\<close>, \<^verbatim>\<open>models\<close> and the requests issued; \<^verbatim>\<open>url\<close> is falsy when it is
  \<^verbatim>\<open>None\<close> or empty. The loop need not end (a service may always name a next page), so
  not returning is the value \<open>None\<close>. The result is the requests issued and either the
  exception that leaves the function or the list it returns.
\<close>

partial_function (option) fetch_pages ::
  "(nat \<Rightarrow> string \<Rightarrow> (string \<times> nat) option \<Rightarrow> page reply) \<Rightarrow> nat \<Rightarrow> string option \<Rightarrow>
   (string \<times> nat) option \<Rightarrow> model list \<Rightarrow> request list \<Rightarrow>
   (request list \<times> (exn + model list)) option" where
  "fetch_pages get k url params models issued =
     (case url of
        None \<Rightarrow> Some (issued, Inr models)
      | Some u \<Rightarrow>
          if u = [] then Some (issued, Inr models)
          else
            (case get k u params of
               Raises e \<Rightarrow> Some (issued @ [Listing u params], Inl e)
             | Response status_code body \<Rightarrow>
                 if status_code \<noteq> 200 then Some (issued @ [Listing u params], Inr models)
                 else
                   (case body of
                      None \<Rightarrow> Some (issued @ [Listing u params], Inl JSONDecodeError)
                    | Some data \<Rightarrow>
                        fetch_pages get (Suc k) (next_url data) None
                          (models @ results data) (issued @ [Listing u params]))))"

declare fetch_pages.simps [code]

definition get_user_models ::
  "env \<Rightarrow> string \<Rightarrow> (request list \<times> (exn + model list)) option" where
  "get_user_models world username =
     fetch_pages (list_models world) 0 (Some (base_url @ ''/models''))
       (Some (username, 100)) [] []"

section \<open>The downloader (lines 54--224)\<close>

text \<open>
  What the loop prints for an entry (lines 142, 147, 158, 172, 186, 209 and 213).
\<close>

datatype report =
  SkippedLicense | NotDownloadable | NoDownloadURLStatus nat | NoDownloadURL
  | AlreadyExists | Saved | FailedWith exn

text \<open>
  The state of a run: the three counters, the names of the files in \<^verbatim>\<open>output_path\<close>,
  the requests issued and the reports printed, in order.
\<close>

record run_state =
  successful :: nat
  failed :: nat
  skipped_license :: nat
  files :: "string set"
  requests :: "request list"
  reports :: "report list"

text \<open>
  Lines 165--169: the location from the \<^verbatim>\<open>source\<close> field when it has a \<^verbatim>\<open>url\<close> key,
  else from the \<^verbatim>\<open>gltf\<close> field; \<^verbatim>\<open>None\<close> otherwise and for a \<^verbatim>\<open>null\<close> value.
\<close>

definition download_url_of :: "download_info \<Rightarrow> string option" where
  "download_url_of data =
     (case source_url data of
        Val u \<Rightarrow> Some u
      | Null \<Rightarrow> None
      | Missing \<Rightarrow>
          (case gltf_url data of Val u \<Rightarrow> Some u | Null \<Rightarrow> None | Missing \<Rightarrow> None))"

text \<open>
  The body of the \<^verbatim>\<open>try\<close> (lines 153--210) for the entry at position \<open>i\<close>: the state
  it leaves, and the exception it raises, if any. A \<^verbatim>\<open>continue\<close> inside it ends the
  iteration with no exception. The file exists from \<^verbatim>\<open>open(filepath, 'wb')\<close> on, also
  when reading the body raises afterwards.
\<close>

definition try_download ::
  "env \<Rightarrow> nat \<Rightarrow> model \<Rightarrow> string \<Rightarrow> run_state \<Rightarrow> run_state \<times> exn option" where
  "try_download world i m safe st =
     (let url = base_url @ ''/models/'' @ str_uid (uid m) @ ''/download'';
          st1 = st\<lparr>requests := requests st @ [Resolve i url]\<rparr>
      in
        case resolve world i url of
          Raises e \<Rightarrow> (st1, Some e)
        | Response status_code body \<Rightarrow>
            if status_code \<noteq> 200
            then (st1\<lparr>failed := failed st1 + 1,
                      reports := reports st1 @ [NoDownloadURLStatus status_code]\<rparr>, None)
            else
              (case body of
                 None \<Rightarrow> (st1, Some JSONDecodeError)
               | Some data \<Rightarrow>
                   (case download_url_of data of
                      None \<Rightarrow>
                        (st1\<lparr>failed := failed st1 + 1,
                             reports := reports st1 @ [NoDownloadURL]\<rparr>, None)
                    | Some download_url \<Rightarrow>
                        if download_url = []
                        then (st1\<lparr>failed := failed st1 + 1,
                                  reports := reports st1 @ [NoDownloadURL]\<rparr>, None)
                        else
                          let ext = extension download_url;
                              filepath = filename safe (uid m) ext
                          in
                            if filepath \<in> files st1
                            then (st1\<lparr>successful := successful st1 + 1,
                                      reports := reports st1 @ [AlreadyExists]\<rparr>, None)
                            else
                              let st2 = st1\<lparr>requests :=
                                          requests st1 @ [Transfer i download_url]\<rparr>
                              in
                                (case transfer world i download_url of
                                   TransferRaises e \<Rightarrow> (st2, Some e)
                                 | TransferResponse code body_error \<Rightarrow>
                                     if 400 \<le> code \<and> code < 600 then (st2, Some HTTPError)
                                     else
                                       (case open_file world i filepath of
                                          Some e \<Rightarrow> (st2, Some e)
                                        | None \<Rightarrow>
                                            let st3 = st2\<lparr>files := insert filepath (files st2)\<rparr>
                                            in
                                              (case body_error of
                                                 Some e \<Rightarrow> (st3, Some e)
                                               | None \<Rightarrow>
                                                   (st3\<lparr>successful := successful st3 + 1,
                                                        reports := reports st3 @ [Saved]\<rparr>,
                                                    None)))))))"

text \<open>
  One iteration of the \<^verbatim>\<open>for\<close> loop (lines 93--216): the state it leaves and the
  exception that leaves it, if any. Reading the license label (line 97) stands before
  the \<^verbatim>\<open>try\<close>; \<^verbatim>\<open>except Exception\<close> (lines 212--214) counts a failure and goes on.
\<close>

definition process_model ::
  "env \<Rightarrow> string list \<Rightarrow> nat \<Rightarrow> model \<Rightarrow> run_state \<Rightarrow> run_state \<times> exn option" where
  "process_model world allowed_licenses i m st =
     (case license_label m of
        Inl e \<Rightarrow> (st, Some e)
      | Inr label \<Rightarrow>
          let safe = safe_name (model_name m) in
            if \<not> license_matches label allowed_licenses
            then (st\<lparr>skipped_license := skipped_license st + 1,
                     reports := reports st @ [SkippedLicense]\<rparr>, None)
            else if \<not> isDownloadable m
            then (st\<lparr>failed := failed st + 1,
                     reports := reports st @ [NotDownloadable]\<rparr>, None)
            else
              (case try_download world i m safe st of
                 (st', None) \<Rightarrow> (st', None)
               | (st', Some e) \<Rightarrow>
                   if is_Exception e
                   then (st'\<lparr>failed := failed st' + 1,
                             reports := reports st' @ [FailedWith e]\<rparr>, None)
                   else (st', Some e)))"

text \<open>
  The \<^verbatim>\<open>for i, model in enumerate(models, 1)\<close> loop: it ends with the list, or with the
  first exception that leaves an iteration.
\<close>

fun download_loop ::
  "env \<Rightarrow> string list \<Rightarrow> nat \<Rightarrow> model list \<Rightarrow> run_state \<Rightarrow> run_state \<times> exn option" where
  "download_loop world allowed_licenses i [] st = (st, None)"
| "download_loop world allowed_licenses i (m # ms) st =
     (case process_model world allowed_licenses i m st of
        (st', None) \<Rightarrow> download_loop world allowed_licenses (Suc i) ms st'
      | (st', Some e) \<Rightarrow> (st', Some e))"

text \<open>
  How a call of \<^verbatim>\<open>download_author_models\<close> ends: at line 58 (no token), at line 75
  (no models), after the summary of lines 218--224, or with an exception.
\<close>

datatype ending = NoToken | NoModels | Summary | Propagated exn

definition default_licenses :: "string list" where
  "default_licenses = [''cc0'', ''by'', ''free standard'', ''standard'']"

text \<open>
  \<^verbatim>\<open>download_author_models\<close>, from the files already in \<^verbatim>\<open>output_path\<close>: how the call
  ends, the catalog it fetched and the state it leaves; \<open>None\<close> when the fetcher does not
  return. The metadata file of lines 82--84 is written before the loop starts.
\<close>

definition download_author_models ::
  "env \<Rightarrow> string option \<Rightarrow> string \<Rightarrow> string list option \<Rightarrow> string set \<Rightarrow>
   (ending \<times> model list \<times> run_state) option" where
  "download_author_models world api_token username allowed_licenses on_disk =
     (let st0 = \<lparr>successful = 0, failed = 0, skipped_license = 0, files = on_disk,
                 requests = [], reports = []\<rparr>
      in
        if api_token = None \<or> api_token = Some [] then Some (NoToken, [], st0)
        else
          let allowed = map lower (case allowed_licenses of
                                     None \<Rightarrow> default_licenses | Some ls \<Rightarrow> ls)
          in
            (case get_user_models world username of
               None \<Rightarrow> None
             | Some (issued, Inl e) \<Rightarrow> Some (Propagated e, [], st0\<lparr>requests := issued\<rparr>)
             | Some (issued, Inr models) \<Rightarrow>
                 if models = [] then Some (NoModels, [], st0\<lparr>requests := issued\<rparr>)
                 else
                   (case open_file world 0 ''models_metadata.json'' of
                      Some e \<Rightarrow> Some (Propagated e, models, st0\<lparr>requests := issued\<rparr>)
                    | None \<Rightarrow>
                        (case download_loop world allowed 1 models
                                (st0\<lparr>requests := issued,
                                     files := insert ''models_metadata.json'' on_disk\<rparr>) of
                           (st', None) \<Rightarrow> Some (Summary, models, st')
                         | (st', Some e) \<Rightarrow> Some (Propagated e, models, st')))))"

section \<open>The specification's words\<close>

text \<open>
  The special rule for the token \<^verbatim>\<open>by\<close>, on a normal form \<open>n\<close>: \<open>n\<close> contains
  \<^verbatim>\<open>attribution\<close>, or both \<^verbatim>\<open>cc\<close> and \<^verbatim>\<open>by\<close>, unless it contains one of the six
  markers of a more restrictive variant.
\<close>

definition spec_by_rule :: "string \<Rightarrow> bool" where
  "spec_by_rule n =
     ((contains ''attribution'' n \<or> (contains ''cc'' n \<and> contains ''by'' n)) \<and>
      (\<not> contains ''nc'' n \<and> \<not> contains ''nd'' n \<and> \<not> contains ''sa'' n \<and>
       \<not> contains ''noncommercial'' n \<and> \<not> contains ''noderivatives'' n \<and>
       \<not> contains ''sharealike'' n))"

text \<open>
  The four rules of the predicate for one allowed token \<open>al\<close>, already lowercased and
  trimmed, on the lowercased, trimmed label \<open>ll\<close>.
\<close>

definition token_rule :: "string \<Rightarrow> string \<Rightarrow> bool" where
  "token_rule ll al =
     (ll = al \<or> normalized ll = normalized al \<or>
      (al = ''by'' \<and> spec_by_rule (normalized ll)) \<or>
      (al = ''cc0'' \<and> (contains ''cc0'' (normalized ll) \<or> contains ''cc 0'' (normalized ll))))"

text \<open>
  A page carries a next-page pointer when \<^verbatim>\<open>data.get("next")\<close> is truthy, which is what
  \<^verbatim>\<open>while url:\<close> tests: a text that is not empty.
\<close>

definition has_next :: "page \<Rightarrow> bool" where
  "has_next p = (case next_url p of None \<Rightarrow> False | Some v \<Rightarrow> v \<noteq> [])"

definition pointer :: "page \<Rightarrow> string" where
  "pointer p = (case next_url p of None \<Rightarrow> [] | Some v \<Rightarrow> v)"

text \<open>
  The service serves the pages \<open>ps\<close>: its \<open>k\<close>-th reply, to the request for \<open>u\<close> with
  \<open>params\<close>, is the first page with status 200, and it serves the rest from the
  pointer of that page on.
\<close>

fun serves ::
  "(nat \<Rightarrow> string \<Rightarrow> (string \<times> nat) option \<Rightarrow> page reply) \<Rightarrow> nat \<Rightarrow> string \<Rightarrow>
   (string \<times> nat) option \<Rightarrow> page list \<Rightarrow> bool" where
  "serves get k u params [] = True"
| "serves get k u params (p # ps) =
     (get k u params = Response 200 (Some p) \<and> serves get (Suc k) (pointer p) None ps)"

text \<open>The requests that fetch the pages \<open>ps\<close>, one for each page.\<close>

fun requests_for :: "string \<Rightarrow> (string \<times> nat) option \<Rightarrow> page list \<Rightarrow> request list" where
  "requests_for u params [] = []"
| "requests_for u params (p # ps) = Listing u params # requests_for (pointer p) None ps"

text \<open>The request that follows the pages \<open>ps\<close>.\<close>

fun request_after ::
  "string \<Rightarrow> (string \<times> nat) option \<Rightarrow> page list \<Rightarrow> string \<times> (string \<times> nat) option" where
  "request_after u params [] = (u, params)"
| "request_after u params (p # ps) = request_after (pointer p) None ps"

text \<open>
  The \<^verbatim>\<open>try\<close> body in two phases, as the proofs read it. The resolution (lines
  154--181) ends the iteration with a report, raises, or names the download location
  and the destination file. The transfer (lines 192--207) raises before the file is
  opened, raises after it, or completes.
\<close>

datatype resolved = Stopped report | Raised exn | Target string string

definition resolve_url :: "model \<Rightarrow> string" where
  "resolve_url m = base_url @ ''/models/'' @ str_uid (uid m) @ ''/download''"

definition resolution :: "env \<Rightarrow> nat \<Rightarrow> model \<Rightarrow> string \<Rightarrow> resolved" where
  "resolution world i m safe =
     (case resolve world i (resolve_url m) of
        Raises e \<Rightarrow> Raised e
      | Response status_code body \<Rightarrow>
          if status_code \<noteq> 200 then Stopped (NoDownloadURLStatus status_code)
          else
            (case body of
               None \<Rightarrow> Raised JSONDecodeError
             | Some data \<Rightarrow>
                 (case download_url_of data of
                    None \<Rightarrow> Stopped NoDownloadURL
                  | Some download_url \<Rightarrow>
                      if download_url = [] then Stopped NoDownloadURL
                      else Target download_url
                             (filename safe (uid m) (extension download_url)))))"

text \<open>The transfer of one file.\<close>

datatype transferred = NoFile exn | Partial exn | Complete

definition transferring :: "env \<Rightarrow> nat \<Rightarrow> string \<Rightarrow> string \<Rightarrow> transferred" where
  "transferring world i download_url filepath =
     (case transfer world i download_url of
        TransferRaises e \<Rightarrow> NoFile e
      | TransferResponse code body_error \<Rightarrow>
          if 400 \<le> code \<and> code < 600 then NoFile HTTPError
          else
            (case open_file world i filepath of
               Some e \<Rightarrow> NoFile e
             | None \<Rightarrow> (case body_error of Some e \<Rightarrow> Partial e | None \<Rightarrow> Complete)))"

text \<open>The sum of the three counters.\<close>

definition tally :: "run_state \<Rightarrow> nat" where
  "tally st = successful st + failed st + skipped_license st"

text \<open>
  An entry passes the gate of lines 141--149 when its license label can be read, matches
  an allowed token, and the entry is marked downloadable.
\<close>

definition passes_gate :: "string list \<Rightarrow> model \<Rightarrow> bool" where
  "passes_gate allowed m =
     (case license_label m of
        Inl e \<Rightarrow> False
      | Inr label \<Rightarrow> license_matches label allowed \<and> isDownloadable m)"

text \<open>The position of the entry a request is issued for.\<close>

fun entry_of :: "request \<Rightarrow> nat option" where
  "entry_of (Listing u params) = None"
| "entry_of (Resolve i u) = Some i"
| "entry_of (Transfer i u) = Some i"

text \<open>
  The allowed tokens of a run (lines 61--64) and the state in which the loop starts
  (lines 82--90), after the listing requests \<open>issued\<close>.
\<close>

definition tokens_of :: "string list option \<Rightarrow> string list" where
  "tokens_of allowed_licenses =
     map lower (case allowed_licenses of None \<Rightarrow> default_licenses | Some ls \<Rightarrow> ls)"

definition starting :: "request list \<Rightarrow> string set \<Rightarrow> run_state" where
  "starting issued on_disk =
     \<lparr>successful = 0, failed = 0, skipped_license = 0,
      files = insert ''models_metadata.json'' on_disk, requests = issued, reports = []\<rparr>"

text \<open>
  The reports that count an entry as successful: its file was saved, or was there
  already.
\<close>

definition success_report :: "report \<Rightarrow> bool" where
  "success_report r = (r = Saved \<or> r = AlreadyExists)"

text \<open>
  Two passes over the same \<open>n\<close> entries, from position \<open>i\<close> on: a first pass from the
  state \<open>s\<close> to \<open>s'\<close> and a second from \<open>t\<close> to \<open>t'\<close>. The second pass repeats the
  first on a disk that holds the files of the first when it leaves the files as they
  are, reports every entry that the first pass counted as successful as already
  existing, issues no transfer request for such an entry, and counts at least as many
  entries as successful.
\<close>

definition repeats :: "nat \<Rightarrow> nat \<Rightarrow> run_state \<Rightarrow> run_state \<Rightarrow> run_state \<Rightarrow> run_state \<Rightarrow> bool" where
  "repeats i n s s' t t' =
     (\<exists>rs1 rs2 qs.
        length rs1 = n \<and> length rs2 = n \<and>
        reports s' = reports s @ rs1 \<and> reports t' = reports t @ rs2 \<and>
        requests t' = requests t @ qs \<and> files t' = files t \<and>
        (\<forall>j < n. success_report (rs1 ! j) \<longrightarrow> rs2 ! j = AlreadyExists) \<and>
        (\<forall>k u. Transfer k u \<in> set qs \<longrightarrow>
           i \<le> k \<and> k < i + n \<and> \<not> success_report (rs1 ! (k - i))) \<and>
        successful s' + successful t \<le> successful t' + successful s)"

section \<open>Example data\<close>

text \<open>
  Four catalog entries: one free to download, one under a share-alike license, one free
  but not downloadable, one with a \<^verbatim>\<open>null\<close> license.
\<close>

definition robot :: model where
  "robot = \<lparr>uid = Some ''a1'', name = Some ''Robot/Model:v2*'', isDownloadable = True,
             license = Val (Val ''CC Attribution'')\<rparr>"

definition castle :: model where
  "castle = \<lparr>uid = Some ''b2'', name = Some ''Castle'', isDownloadable = True,
              license = Val (Val ''CC-BY-SA 4.0'')\<rparr>"

definition statue :: model where
  "statue = \<lparr>uid = Some ''c3'', name = Some ''Statue'', isDownloadable = False,
              license = Val (Val ''CC0 1.0'')\<rparr>"

definition unlicensed :: model where
  "unlicensed = \<lparr>uid = Some ''d4'', name = Some ''Tree'', isDownloadable = True,
                  license = Null\<rparr>"

definition page_one :: page where
  "page_one = \<lparr>results = [robot, castle],
                next_url = Some ''https://api.sketchfab.com/v3/models?cursor=2''\<rparr>"

definition page_two :: page where
  "page_two = \<lparr>results = [statue], next_url = None\<rparr>"

definition page_three :: page where
  "page_three = \<lparr>results = [unlicensed], next_url = None\<rparr>"

definition robot_archive :: download_info where
  "robot_archive = \<lparr>source_url = Val ''https://cdn.example/a1/robot.zip?sig=1'',
                      gltf_url = Missing\<rparr>"

text \<open>
  A service with two pages that resolves and transfers every download, and one whose
  second listing reply has status 500 though a third page would follow.
\<close>

definition two_pages :: env where
  "two_pages =
     \<lparr>list_models = (\<lambda>k u params.
        if k = 0 then Response 200 (Some page_one)
        else if k = 1 then Response 200 (Some page_two)
        else Response 404 None),
      resolve = (\<lambda>i u. Response 200 (Some robot_archive)),
      transfer = (\<lambda>i u. TransferResponse 200 None),
      open_file = (\<lambda>i path. None)\<rparr>"

definition second_page_fails :: env where
  "second_page_fails =
     \<lparr>list_models = (\<lambda>k u params.
        if k = 0 then Response 200 (Some page_one)
        else if k = 1 then Response 500 None
        else Response 200 (Some page_three)),
      resolve = (\<lambda>i u. Response 200 (Some robot_archive)),
      transfer = (\<lambda>i u. TransferResponse 200 None),
      open_file = (\<lambda>i path. None)\<rparr>"

text \<open>
  A service as \<open>two_pages\<close>, on a disk that takes the metadata file and then no other
  file: opening the file of an entry raises \<^verbatim>\<open>OSError\<close>.
\<close>

definition full_disk :: env where
  "full_disk = two_pages\<lparr>open_file := (\<lambda>i path. if i = 0 then None else Some OSError)\<rparr>"

text \<open>A service as \<open>two_pages\<close> whose transfers are interrupted from the keyboard.\<close>

definition interrupted :: env where
  "interrupted = two_pages\<lparr>transfer := (\<lambda>i u. TransferRaises KeyboardInterrupt)\<rparr>"

text \<open>The state of a run that has done nothing yet, on an empty directory.\<close>

definition fresh :: run_state where
  "fresh = \<lparr>successful = 0, failed = 0, skipped_license = 0, files = {}, requests = [],
            reports = []\<rparr>"

section \<open>Properties of the string operations\<close>

lemma lower_char_idem: "lower_char (lower_char c) = lower_char c"
  by (simp add: lower_char_def Let_def)

lemma lower_idem: "lower (lower s) = lower s"
  by (simp add: lower_def lower_char_idem)

lemma isspace_lower_char: "isspace (lower_char c) = isspace c"
  by (auto simp add: lower_char_def Let_def isspace_def)

lemma dropWhile_isspace_lower:
  "dropWhile isspace (map lower_char s) = map lower_char (dropWhile isspace s)"
  by (induction s) (simp_all add: isspace_lower_char)

lemma strip_lower: "strip (lower s) = lower (strip s)"
  by (simp add: strip_def lower_def dropWhile_isspace_lower rev_map)

lemma char_of_eqD: "char_of (n::nat) = c \<Longrightarrow> of_char c = n mod 256"
  by (metis of_char_of)

lemma lower_char_eq_hyphen: "(lower_char c = CHR ''-'') = (c = CHR ''-'')"
  by (auto simp add: lower_char_def Let_def dest!: char_of_eqD)

lemma lower_char_eq_underscore: "(lower_char c = CHR ''_'') = (c = CHR ''_'')"
  by (auto simp add: lower_char_def Let_def dest!: char_of_eqD)

lemma lower_char_space: "lower_char CHR '' '' = CHR '' ''"
  by (simp add: lower_char_def)

lemma lower_normalized: "lower (normalized s) = normalized (lower s)"
  by (simp add: normalized_def lower_def replace_def lower_char_eq_hyphen
      lower_char_eq_underscore lower_char_space)

lemma normalized_idem: "normalized (normalized s) = normalized s"
  by (simp add: normalized_def replace_def)

text \<open>Stripping twice is stripping once.\<close>

lemma dropWhile_fixed: "xs = [] \<or> \<not> P (hd xs) \<Longrightarrow> dropWhile P xs = xs"
  by (cases xs) auto

lemma strip_idem: "strip (strip s) = strip s"
proof -
  let ?t = "dropWhile isspace s"
  let ?u = "rev (dropWhile isspace (rev ?t))"
  have t: "?t = [] \<or> \<not> isspace (hd ?t)"
    using hd_dropWhile [of isspace s] by blast
  have "suffix (dropWhile isspace (rev ?t)) (rev ?t)"
    by (rule suffix_dropWhile)
  then obtain zs where "rev ?t = zs @ dropWhile isspace (rev ?t)"
    by (auto simp add: suffix_def)
  then have "?t = ?u @ rev zs"
    by (metis rev_append rev_rev_ident)
  then have "?u = [] \<or> hd ?u = hd ?t"
    by (metis hd_append2)
  moreover have "?u \<noteq> [] \<Longrightarrow> ?t \<noteq> []"
    by (metis dropWhile.simps(1) rev.simps(1))
  ultimately have "?u = [] \<or> \<not> isspace (hd ?u)"
    using t by metis
  then have "dropWhile isspace ?u = ?u"
    by (rule dropWhile_fixed)
  then show ?thesis
    by (simp add: strip_def)
qed

section \<open>Properties of the license check\<close>

lemma license_loop_Cons:
  "license_loop ll (a # rest) = (token_rule ll (strip (lower a)) \<or> license_loop ll rest)"
  unfolding token_rule_def spec_by_rule_def license_loop.simps Let_def
  by (simp only: if_True if_False split: if_splits) blast

lemma license_loop_ex:
  "license_loop ll allowed = (\<exists>a \<in> set allowed. token_rule ll (strip (lower a)))"
  by (induction allowed) (simp_all only: license_loop.simps(1) license_loop_Cons list.set, auto)

lemma token_rule_normalized: "token_rule (normalized s) al = token_rule s al"
  unfolding token_rule_def normalized_idem
  by (metis normalized_idem)

lemma normalized_eq_by: "(normalized s = ''by'') = (s = ''by'')"
  by (auto simp add: normalized_def replace_def split: if_splits)

lemma normalized_by: "normalized ''by'' = ''by''"
  by (simp add: normalized_def replace_def)

lemma lower_by: "lower ''by'' = ''by''"
  by (simp add: lower_def lower_char_def)

lemma strip_by: "strip ''by'' = ''by''"
  by (simp add: strip_def isspace_def)

lemma match_license_by:
  "match_license label [''by''] =
     (strip (lower label) = ''by'' \<or> spec_by_rule (spec_normalize label))"
  by (simp add: match_license_def license_matches_def license_loop_Cons lower_idem
      lower_by strip_by token_rule_def normalized_eq_by normalized_by spec_normalize_def
      del: license_loop.simps(2))

lemma spec_normalize_lower: "lower (spec_normalize label) = spec_normalize label"
  by (simp add: spec_normalize_def lower_normalized strip_lower [symmetric] lower_idem)

lemma match_license_loop:
  "match_license label allowed = license_loop (strip (lower label)) (map lower allowed)"
  by (simp add: match_license_def license_matches_def lower_idem)

text \<open>
  C1. With the single allowed token \<^verbatim>\<open>by\<close>, the predicate holds exactly when the
  lowercased, trimmed label is \<^verbatim>\<open>by\<close> itself (rules 2 and 3 of the algorithm), or the
  normalized label contains \<^verbatim>\<open>attribution\<close> or both \<^verbatim>\<open>cc\<close> and \<^verbatim>\<open>by\<close> and none of
  \<^verbatim>\<open>nc\<close>, \<^verbatim>\<open>nd\<close>, \<^verbatim>\<open>sa\<close>, \<^verbatim>\<open>noncommercial\<close>, \<^verbatim>\<open>noderivatives\<close>, \<^verbatim>\<open>sharealike\<close>. It
  holds for \<^verbatim>\<open>CC Attribution\<close> and fails for \<^verbatim>\<open>CC-BY-SA 4.0\<close> and \<^verbatim>\<open>CC-BY-NC\<close>.
\<close>

theorem by_token_rule:
  "(match_license label [''by''] =
      (strip (lower label) = ''by'' \<or> spec_by_rule (spec_normalize label))) \<and>
   match_license ''CC Attribution'' [''by''] \<and>
   \<not> match_license ''CC-BY-SA 4.0'' [''by''] \<and>
   \<not> match_license ''CC-BY-NC'' [''by'']"
proof -
  have "match_license ''CC Attribution'' [''by'']"
    by code_simp
  moreover have "\<not> match_license ''CC-BY-SA 4.0'' [''by'']"
    by code_simp
  moreover have "\<not> match_license ''CC-BY-NC'' [''by'']"
    by code_simp
  ultimately show ?thesis
    using match_license_by [of label] by blast
qed

text \<open>
  The rule of C1 at the label \<^verbatim>\<open>Attribution-NonCommercial\<close>: it contains
  \<^verbatim>\<open>attribution\<close> and \<^verbatim>\<open>nc\<close>, and the predicate fails.
\<close>

theorem by_token_rule_witness:
  "\<not> match_license ''Attribution-NonCommercial'' [''by''] \<and>
   contains ''attribution'' (spec_normalize ''Attribution-NonCommercial'') \<and>
   contains ''nc'' (spec_normalize ''Attribution-NonCommercial'')"
proof -
  have a: "contains ''attribution'' (spec_normalize ''Attribution-NonCommercial'')"
    by code_simp
  have b: "contains ''nc'' (spec_normalize ''Attribution-NonCommercial'')"
    by code_simp
  have c: "strip (lower ''Attribution-NonCommercial'') \<noteq> ''by''"
    by code_simp
  have "\<not> spec_by_rule (spec_normalize ''Attribution-NonCommercial'')"
    using b by (simp add: spec_by_rule_def)
  then have "\<not> match_license ''Attribution-NonCommercial'' [''by'']"
    using by_token_rule [of "''Attribution-NonCommercial''"] c by blast
  then show ?thesis
    using a b by blast
qed

text \<open>
  The label \<^verbatim>\<open>by\<close> matches the token \<^verbatim>\<open>by\<close> by the exact-match rule (line 116), though
  its normal form contains neither \<^verbatim>\<open>attribution\<close> nor \<^verbatim>\<open>cc\<close>: the special rule alone
  does not describe the predicate.
\<close>

theorem by_token_exact_match_counterexample:
  "match_license ''by'' [''by''] \<and> \<not> spec_by_rule (spec_normalize ''by'')"
  by code_simp

text \<open>
  C2. The predicate is a function of its arguments. For every label and every token
  list it gives the same answer on the lowercased, trimmed label: it does not see the
  case of the label or the whitespace around it. It gives the same answer on the
  normalized label whenever the normal form has no whitespace at either end, that is,
  whenever the lowercased, trimmed label neither starts nor ends with a hyphen or an
  underscore.
\<close>

theorem match_license_normal_form:
  "match_license label allowed = match_license (strip (lower label)) allowed \<and>
   (strip (spec_normalize label) = spec_normalize label \<longrightarrow>
      match_license label allowed = match_license (spec_normalize label) allowed)"
proof (intro conjI impI)
  have "lower (strip (lower label)) = strip (lower label)"
    by (simp add: strip_lower [symmetric] lower_idem)
  then show "match_license label allowed = match_license (strip (lower label)) allowed"
    by (simp add: match_license_loop strip_idem)
next
  assume fixed: "strip (spec_normalize label) = spec_normalize label"
  have "match_license (spec_normalize label) allowed
      = license_loop (spec_normalize label) (map lower allowed)"
    by (simp add: match_license_loop spec_normalize_lower fixed)
  also have "\<dots> = license_loop (strip (lower label)) (map lower allowed)"
    by (simp only: license_loop_ex spec_normalize_def token_rule_normalized)
  also have "\<dots> = match_license label allowed"
    by (simp add: match_license_loop)
  finally show "match_license label allowed = match_license (spec_normalize label) allowed"
    by simp
qed

text \<open>
  The label \<^verbatim>\<open>CC-BY 4.0\<close> has a normal form with no whitespace at its ends and matches
  as its normal form does. The label \<^verbatim>\<open> Standard-\<close> has not, and still matches as its
  lowercased, trimmed form does.
\<close>

theorem match_license_normal_form_witness:
  "strip (spec_normalize ''CC-BY 4.0'') = spec_normalize ''CC-BY 4.0'' \<and>
   match_license ''CC-BY 4.0'' default_licenses \<and>
   match_license (spec_normalize ''CC-BY 4.0'') default_licenses \<and>
   strip (spec_normalize '' Standard-'') \<noteq> spec_normalize '' Standard-'' \<and>
   match_license '' Standard-'' default_licenses
     = match_license (strip (lower '' Standard-'')) default_licenses"
proof -
  have h: "strip (spec_normalize ''CC-BY 4.0'') = spec_normalize ''CC-BY 4.0''"
    by code_simp
  have m: "match_license ''CC-BY 4.0'' default_licenses"
    by code_simp
  have n: "strip (spec_normalize '' Standard-'') \<noteq> spec_normalize '' Standard-''"
    by code_simp
  from match_license_normal_form [of "''CC-BY 4.0''" default_licenses] h m
  have a: "match_license (spec_normalize ''CC-BY 4.0'') default_licenses"
    by simp
  from match_license_normal_form [of "'' Standard-''" default_licenses]
  have b: "match_license '' Standard-'' default_licenses
     = match_license (strip (lower '' Standard-'')) default_licenses"
    by (rule conjunct1)
  from h m n a b show ?thesis
    by blast
qed


text \<open>
  The label \<^verbatim>\<open>standard-\<close> fails the predicate on the default tokens: its normal form
  ends with a space, which line 121 does not trim. The normal form itself, passed as a
  label, is trimmed by line 109 and matches \<^verbatim>\<open>standard\<close> exactly.
\<close>

theorem match_license_trailing_hyphen_counterexample:
  "\<not> match_license ''standard-'' default_licenses \<and>
   match_license (spec_normalize ''standard-'') default_licenses"
  by code_simp

section \<open>Properties of the file names\<close>

lemma split_py_not_Nil: "split_py sep s \<noteq> []"
  by (induction s) (simp_all split: list.splits)

lemma split_py_Cons:
  "split_py sep (c # cs) =
     (if c = sep then [] # split_py sep cs
      else (c # hd (split_py sep cs)) # tl (split_py sep cs))"
  using split_py_not_Nil [of sep cs] by (simp split: list.splits)

lemma split_py_absent: "sep \<notin> set s \<Longrightarrow> split_py sep s = [s]"
  by (induction s) auto

lemma split_py_present: "sep \<in> set s \<Longrightarrow> tl (split_py sep s) \<noteq> []"
  by (induction s) (auto simp add: split_py_not_Nil split_py_Cons simp del: split_py.simps(2))

lemma after_last_Cons:
  "after_last sep (c # cs) =
     (if sep \<in> set cs then after_last sep cs else if c = sep then cs else c # cs)"
proof (cases "sep \<in> set cs")
  case True
  then have "\<not> (\<forall>x \<in> set (rev cs). x \<noteq> sep)" by auto
  then show ?thesis
    using True by (simp add: after_last_def takeWhile_append1 del: set_rev) 
next
  case False
  then have "\<forall>x \<in> set (rev cs). x \<noteq> sep" by auto
  then show ?thesis
    using False by (simp add: after_last_def takeWhile_append2 del: set_rev)
qed

lemma last_split_py: "last (split_py sep s) = after_last sep s"
proof (induction s)
  case Nil
  show ?case by (simp add: after_last_def)
next
  case (Cons c cs)
  show ?case
  proof (cases "sep \<in> set cs")
    case True
    then show ?thesis
      using Cons split_py_present [OF True] split_py_not_Nil [of sep cs]
      by (simp add: after_last_Cons last_tl split_py_Cons del: split_py.simps(2))
  next
    case False
    then show ?thesis
      by (simp add: after_last_Cons split_py_absent)
  qed
qed

lemma hd_split_py: "hd (split_py sep s) = before_first sep s"
  by (induction s) (simp_all add: before_first_def split_py_Cons del: split_py.simps(2))

lemma after_last_no_sep: "sep \<notin> set (after_last sep s)"
  unfolding after_last_def
  by (metis set_rev set_takeWhileD)

lemma after_last_subset: "d \<in> set (after_last sep s) \<Longrightarrow> d \<in> set s"
  unfolding after_last_def
  by (metis set_rev set_takeWhileD)

lemma after_last_twice:
  assumes "d \<in> set (after_last sep s)"
  shows "after_last d (after_last sep s) = after_last d s"
  using assms
proof (induction s)
  case Nil
  then show ?case by (simp add: after_last_def)
next
  case (Cons c cs)
  then show ?case
    by (auto simp add: after_last_Cons dest: after_last_subset split: if_splits)
qed

text \<open>
  What lines 177--179 compute, on the whole location with its query string: when the
  text after the last slash contains a dot, a dot and the text after the last dot of
  it, cut at the first question mark; otherwise \<^verbatim>\<open>.zip\<close>.
\<close>

lemma extension_of_last_piece:
  "filename safe model_uid (extension download_url) =
     safe @ ''_'' @ str_uid model_uid @
       (if CHR ''.'' \<in> set (after_last CHR ''/'' download_url)
        then CHR ''.'' #
          before_first CHR ''?'' (after_last CHR ''.'' (after_last CHR ''/'' download_url))
        else ''.zip'')"
  by (simp add: filename_def extension_def last_split_py hd_split_py after_last_twice)

lemma after_last_append:
  assumes "sep \<notin> set r"
  shows "after_last sep (p @ r) = after_last sep p @ r"
proof -
  have "\<And>x. x \<in> set (rev r) \<Longrightarrow> x \<noteq> sep"
    using assms by auto
  then have "takeWhile (\<lambda>c. c \<noteq> sep) (rev r @ rev p)
      = rev r @ takeWhile (\<lambda>c. c \<noteq> sep) (rev p)"
    by (rule takeWhile_append2)
  then show ?thesis
    by (simp add: after_last_def)
qed

lemma before_first_append:
  assumes "sep \<notin> set x" and "r = [] \<or> hd r = sep"
  shows "before_first sep (x @ r) = x"
proof (cases r)
  case Nil
  then show ?thesis using assms(1) by (auto simp add: before_first_def)
next
  case (Cons c cs)
  then have "c = sep" using assms(2) by simp
  moreover have "\<And>y. y \<in> set x \<Longrightarrow> y \<noteq> sep"
    using assms(1) by auto
  then have "takeWhile (\<lambda>c. c \<noteq> sep) (x @ r) = x @ takeWhile (\<lambda>c. c \<noteq> sep) r"
    by (rule takeWhile_append2)
  ultimately show ?thesis using Cons by (simp add: before_first_def)
qed

lemma location_split: "location = before_first CHR ''?'' location @ query_of location"
  by (simp add: before_first_def query_of_def)

lemma query_of_head: "query_of location = [] \<or> hd (query_of location) = CHR ''?''"
  unfolding query_of_def using hd_dropWhile [of "\<lambda>c. c \<noteq> CHR ''?''" location] by auto

lemma before_first_no_sep: "sep \<notin> set (before_first sep s)"
  unfolding before_first_def by (auto dest: set_takeWhileD)

text \<open>
  Where the query string holds no dot and no slash, the code computes the extension of
  the final path segment.
\<close>

lemma extension_agrees:
  assumes "CHR ''.'' \<notin> set (query_of location)" and "CHR ''/'' \<notin> set (query_of location)"
  shows "extension location = spec_extension location"
proof -
  let ?p = "before_first CHR ''?'' location"
  let ?r = "query_of location"
  let ?seg = "after_last CHR ''/'' ?p"
  have loc: "location = ?p @ ?r" by (rule location_split)
  have seg: "after_last CHR ''/'' location = ?seg @ ?r"
    using after_last_append [OF assms(2), of ?p] loc by simp
  have dot: "(CHR ''.'' \<in> set (after_last CHR ''/'' location)) = (CHR ''.'' \<in> set ?seg)"
    using seg assms(1) by simp
  have noq: "CHR ''?'' \<notin> set (after_last CHR ''.'' ?seg)"
    using after_last_subset before_first_no_sep by metis
  have "after_last CHR ''.'' (?seg @ ?r) = after_last CHR ''.'' ?seg @ ?r"
    using assms(1) by (rule after_last_append)
  then have "before_first CHR ''?'' (after_last CHR ''.'' (after_last CHR ''/'' location))
      = after_last CHR ''.'' ?seg"
    using before_first_append [OF noq query_of_head] seg by simp
  then have cut: "CHR ''.'' \<in> set (after_last CHR ''/'' location) \<Longrightarrow>
      hd (split_py CHR ''?'' (last (split_py CHR ''.'' location))) = after_last CHR ''.'' ?seg"
    by (simp add: last_split_py hd_split_py after_last_twice)
  show ?thesis
  proof (cases "CHR ''.'' \<in> set ?seg")
    case True
    then have "CHR ''.'' \<in> set (after_last CHR ''/'' location)"
      using dot by simp
    then show ?thesis
      using True cut by (simp add: extension_def spec_extension_def last_split_py)
  next
    case False
    then have "CHR ''.'' \<notin> set (after_last CHR ''/'' location)"
      using dot by simp
    then show ?thesis
      using False by (simp add: extension_def spec_extension_def last_split_py)
  qed
qed

text \<open>
  C7. The extension is not always that of the final path segment. Lines 178 and 179
  split the whole location, query string included: on \<^verbatim>\<open>https://h/m.glb?v=1.2\<close> the
  text after the last dot lies in the query and the extension is \<^verbatim>\<open>.2\<close>, where the
  segment \<^verbatim>\<open>m.glb\<close> gives \<^verbatim>\<open>.glb\<close>; on \<^verbatim>\<open>https://h/robot?v=1.2\<close> it is \<^verbatim>\<open>.2\<close>, where
  the segment \<^verbatim>\<open>robot\<close> has no dot and gives \<^verbatim>\<open>.zip\<close>; on
  \<^verbatim>\<open>https://h/a.glb?u=http://x/y\<close> the text after the last slash lies in the query and
  the extension is \<^verbatim>\<open>.zip\<close>, where the segment \<^verbatim>\<open>a.glb\<close> gives \<^verbatim>\<open>.glb\<close>.
\<close>

theorem extension_reads_past_query:
  "extension ''https://h/m.glb?v=1.2'' = ''.2'' \<and>
   spec_extension ''https://h/m.glb?v=1.2'' = ''.glb'' \<and>
   filename ''Robot'' (Some ''ab12'') (extension ''https://h/m.glb?v=1.2'') = ''Robot_ab12.2'' \<and>
   extension ''https://h/robot?v=1.2'' = ''.2'' \<and>
   spec_extension ''https://h/robot?v=1.2'' = ''.zip'' \<and>
   extension ''https://h/a.glb?u=http://x/y'' = ''.zip'' \<and>
   spec_extension ''https://h/a.glb?u=http://x/y'' = ''.glb''"
  by code_simp

lemma set_strip: "set (strip s) \<subseteq> set s"
proof
  fix c assume "c \<in> set (strip s)"
  then have "c \<in> set (dropWhile isspace (rev (dropWhile isspace s)))"
    by (simp add: strip_def)
  then have "c \<in> set (rev (dropWhile isspace s))"
    by (rule set_dropWhileD)
  then have "c \<in> set (dropWhile isspace s)"
    by simp
  then show "c \<in> set s"
    by (rule set_dropWhileD)
qed

lemma safe_name_chars:
  "c \<in> set (safe_name n) \<Longrightarrow> isalnum c \<or> c = CHR '' '' \<or> c = CHR ''-'' \<or> c = CHR ''_''"
proof -
  assume "c \<in> set (safe_name n)"
  then have "c \<in> set (strip (filter (\<lambda>c. isalnum c \<or> c \<in> {CHR '' '', CHR ''-'', CHR ''_''}) n))"
    unfolding safe_name_def by (rule in_set_takeD)
  then have "c \<in> set (filter (\<lambda>c. isalnum c \<or> c \<in> {CHR '' '', CHR ''-'', CHR ''_''}) n)"
    using set_strip by blast
  then show ?thesis by auto
qed

lemma length_safe_name: "length (safe_name n) \<le> 100"
  by (simp add: safe_name_def)

lemma before_first_subset: "set (before_first sep s) \<subseteq> set s"
  unfolding before_first_def by (auto dest: set_takeWhileD)

lemma extension_form: "\<exists>t. extension download_url = CHR ''.'' # t \<and> CHR ''.'' \<notin> set t"
proof (cases "CHR ''.'' \<in> set (last (split_py CHR ''/'' download_url))")
  case True
  have "CHR ''.'' \<notin> set (before_first CHR ''?'' (after_last CHR ''.'' download_url))"
    using before_first_subset after_last_no_sep by blast
  then show ?thesis
    using True by (simp add: extension_def last_split_py hd_split_py)
next
  case False
  then show ?thesis
    by (simp add: extension_def)
qed

lemma append_sep_inject:
  "a \<notin> set ys \<Longrightarrow> a \<notin> set ys' \<Longrightarrow> xs @ a # ys = xs' @ a # ys' \<Longrightarrow> xs = xs'"
proof (induction xs arbitrary: xs')
  case Nil
  then show ?case by (cases xs') auto
next
  case (Cons x xs)
  then show ?case by (cases xs') auto
qed

lemma filename_inject:
  assumes "filename safe u (extension url) = filename safe u' (extension url')"
  shows "str_uid u = str_uid u'"
proof -
  obtain t where t: "extension url = CHR ''.'' # t" "CHR ''.'' \<notin> set t"
    using extension_form by blast
  obtain t' where t': "extension url' = CHR ''.'' # t'" "CHR ''.'' \<notin> set t'"
    using extension_form by blast
  from assms have "str_uid u @ CHR ''.'' # t = str_uid u' @ CHR ''.'' # t'"
    by (simp add: filename_def t t')
  then show ?thesis
    by (rule append_sep_inject [OF t(2) t'(2)])
qed

text \<open>
  C5. The sanitized name holds only alphanumerics, spaces, hyphens and underscores and
  is at most 100 characters long; the file name is the sanitized name, an underscore,
  the identifier and the extension; and two entries with the same sanitized name and
  different identifiers get different file names, whatever their download locations.
\<close>

theorem sanitized_file_names:
  "(\<forall>c \<in> set (safe_name n). isalnum c \<or> c = CHR '' '' \<or> c = CHR ''-'' \<or> c = CHR ''_'') \<and>
   length (safe_name n) \<le> 100 \<and>
   filename (safe_name n) (Some u) (extension url)
     = safe_name n @ ''_'' @ u @ extension url \<and>
   (safe_name n = safe_name n' \<and> u \<noteq> u' \<longrightarrow>
      filename (safe_name n) (Some u) (extension url)
        \<noteq> filename (safe_name n') (Some u') (extension url'))"
proof -
  have "filename (safe_name n) (Some u) (extension url)
          \<noteq> filename (safe_name n') (Some u') (extension url')"
    if "safe_name n = safe_name n'" and "u \<noteq> u'"
  proof
    assume "filename (safe_name n) (Some u) (extension url)
              = filename (safe_name n') (Some u') (extension url')"
    then have "str_uid (Some u) = str_uid (Some u')"
      using that(1) filename_inject by metis
    then show False
      using that(2) by (simp add: str_uid_def)
  qed
  then show ?thesis
    using safe_name_chars [of _ n] length_safe_name [of n]
    by (simp add: filename_def str_uid_def)
qed

text \<open>
  The names \<^verbatim>\<open>Robot/Model:v2*\<close> and \<^verbatim>\<open>RobotModel:v2\<close> both sanitize to
  \<^verbatim>\<open>RobotModelv2\<close>; with the identifiers \<^verbatim>\<open>a1\<close> and \<^verbatim>\<open>b2\<close> the file names differ.
\<close>

theorem sanitized_file_names_witness:
  "safe_name ''Robot/Model:v2*'' = ''RobotModelv2'' \<and>
   safe_name ''RobotModel:v2'' = ''RobotModelv2'' \<and>
   filename (safe_name ''Robot/Model:v2*'') (Some ''a1'') (extension ''https://h/f.zip?x'')
     \<noteq> filename (safe_name ''RobotModel:v2'') (Some ''b2'') (extension ''https://h/f.zip?x'')"
proof -
  have a: "safe_name ''Robot/Model:v2*'' = ''RobotModelv2''"
    by code_simp
  have b: "safe_name ''RobotModel:v2'' = ''RobotModelv2''"
    by code_simp
  have c: "''a1'' \<noteq> ''b2''"
    by simp
  show ?thesis
    using sanitized_file_names [of "''Robot/Model:v2*''" "''a1''" "''https://h/f.zip?x''"
        "''RobotModel:v2''" "''b2''" "''https://h/f.zip?x''"] a b c
    by metis
qed

section \<open>Properties of the catalog fetcher\<close>

lemma fetch_pages_stop:
  "\<not> has_next p \<Longrightarrow> fetch_pages get k (next_url p) params models issued = Some (issued, Inr models)"
  by (subst fetch_pages.simps) (simp add: has_next_def split: option.splits)

lemma fetch_pages_step:
  assumes "u \<noteq> []" and "get k u params = Response 200 (Some p)"
  shows "fetch_pages get k (Some u) params models issued =
         fetch_pages get (Suc k) (next_url p) None (models @ results p) (issued @ [Listing u params])"
  by (subst fetch_pages.simps) (simp add: assms)

lemma has_next_pointer: "has_next p \<Longrightarrow> next_url p = Some (pointer p) \<and> pointer p \<noteq> []"
  by (simp add: has_next_def pointer_def split: option.splits)

lemma fetch_pages_all:
  assumes "u \<noteq> []" and "pages \<noteq> []"
    and "\<forall>p \<in> set (butlast pages). has_next p" and "\<not> has_next (last pages)"
    and "serves get k u params pages"
  shows "fetch_pages get k (Some u) params models issued =
         Some (issued @ requests_for u params pages, Inr (models @ concat (map results pages)))"
  using assms
proof (induction pages arbitrary: u k params models issued)
  case Nil
  then show ?case by simp
next
  case (Cons p ps)
  from Cons.prems(5) have get: "get k u params = Response 200 (Some p)"
    and rest: "serves get (Suc k) (pointer p) None ps"
    by simp_all
  note step = fetch_pages_step [where get = get and k = k and u = u and params = params and p = p,
      OF Cons.prems(1) get]
  show ?case
  proof (cases "ps = []")
    case True
    then have "\<not> has_next p" using Cons.prems(4) by simp
    then show ?thesis
      using True by (simp add: step fetch_pages_stop)
  next
    case False
    then have hn: "has_next p" using Cons.prems(3) by simp
    have "fetch_pages get (Suc k) (Some (pointer p)) None (models @ results p)
            (issued @ [Listing u params]) =
          Some ((issued @ [Listing u params]) @ requests_for (pointer p) None ps,
                Inr ((models @ results p) @ concat (map results ps)))"
    proof (rule Cons.IH)
      show "pointer p \<noteq> []" using hn has_next_pointer by blast
      show "ps \<noteq> []" by (rule False)
      show "\<forall>p \<in> set (butlast ps). has_next p" using Cons.prems(3) False by simp
      show "\<not> has_next (last ps)" using Cons.prems(4) False by simp
      show "serves get (Suc k) (pointer p) None ps" by (rule rest)
    qed
    then show ?thesis
      using hn has_next_pointer [OF hn] by (simp add: step)
  qed
qed

lemma length_requests_for: "length (requests_for u params pages) = length pages"
  by (induction pages arbitrary: u params) simp_all

lemma fetch_pages_fail:
  assumes "u \<noteq> []" and "\<forall>p \<in> set pages. has_next p"
    and "serves get k u params pages"
    and "request_after u params pages = (u', params')"
    and "get (k + length pages) u' params' = Response status_code body"
    and "status_code \<noteq> 200"
  shows "fetch_pages get k (Some u) params models issued =
         Some (issued @ requests_for u params pages @ [Listing u' params'],
               Inr (models @ concat (map results pages)))"
  using assms
proof (induction pages arbitrary: u k params models issued)
  case Nil
  then show ?case
    by (subst fetch_pages.simps) simp
next
  case (Cons p ps)
  from Cons.prems(3) have get: "get k u params = Response 200 (Some p)"
    and rest: "serves get (Suc k) (pointer p) None ps"
    by simp_all
  have hn: "has_next p" using Cons.prems(2) by simp
  have "fetch_pages get (Suc k) (Some (pointer p)) None (models @ results p)
          (issued @ [Listing u params]) =
        Some ((issued @ [Listing u params]) @ requests_for (pointer p) None ps @ [Listing u' params'],
              Inr ((models @ results p) @ concat (map results ps)))"
  proof (rule Cons.IH)
    show "pointer p \<noteq> []" using hn has_next_pointer by blast
    show "\<forall>p \<in> set ps. has_next p" using Cons.prems(2) by simp
    show "serves get (Suc k) (pointer p) None ps" by (rule rest)
    show "request_after (pointer p) None ps = (u', params')" using Cons.prems(4) by simp
    show "get (Suc k + length ps) u' params' = Response status_code body"
      using Cons.prems(5) by simp
    show "status_code \<noteq> 200" by (rule Cons.prems(6))
  qed
  then show ?case
    using has_next_pointer [OF hn]
    by (simp add: fetch_pages_step [where get = get and k = k and u = u and params = params and p = p,
      OF Cons.prems(1) get])
qed

lemma first_url_not_empty: "base_url @ ''/models'' \<noteq> []"
  by simp

text \<open>
  C3. When the service serves \<open>N\<close> pages, each with status 200, each but the last with a
  next-page pointer and the last with none, the fetcher returns: it issues exactly the
  \<open>N\<close> requests for these pages and returns their entries, concatenated in order.
\<close>

theorem fetcher_follows_all_pages:
  assumes "pages \<noteq> []"
    and "\<forall>p \<in> set (butlast pages). has_next p"
    and "\<not> has_next (last pages)"
    and "serves (list_models world) 0 (base_url @ ''/models'') (Some (username, 100)) pages"
  shows "get_user_models world username =
           Some (requests_for (base_url @ ''/models'') (Some (username, 100)) pages,
                 Inr (concat (map results pages))) \<and>
         length (requests_for (base_url @ ''/models'') (Some (username, 100)) pages)
           = length pages"
  using fetch_pages_all [OF first_url_not_empty assms, of "[]" "[]"]
  by (simp add: get_user_models_def length_requests_for)

theorem fetcher_follows_all_pages_witness:
  "get_user_models two_pages ''bob'' =
     Some ([Listing ''https://api.sketchfab.com/v3/models'' (Some (''bob'', 100)),
            Listing ''https://api.sketchfab.com/v3/models?cursor=2'' None],
           Inr [robot, castle, statue])"
proof -
  have 1: "[page_one, page_two] \<noteq> []"
    by simp
  have 2: "\<forall>p \<in> set (butlast [page_one, page_two]). has_next p"
    by (simp add: has_next_def page_one_def)
  have 3: "\<not> has_next (last [page_one, page_two])"
    by (simp add: has_next_def page_two_def)
  have 4: "serves (list_models two_pages) 0 (base_url @ ''/models'') (Some (''bob'', 100))
             [page_one, page_two]"
    by (simp add: two_pages_def)
  show ?thesis
    using fetcher_follows_all_pages [OF 1 2 3 4]
    by (simp add: base_url_def pointer_def page_one_def page_two_def)
qed

text \<open>
  C4. When the service serves some pages, each with a next-page pointer, and answers the
  request after them with a status other than 200, the fetcher returns, with no
  exception: that request is its last, and it returns exactly the entries of the pages
  before it.
\<close>

theorem fetcher_stops_at_failure:
  assumes "\<forall>p \<in> set pages. has_next p"
    and "serves (list_models world) 0 (base_url @ ''/models'') (Some (username, 100)) pages"
    and "request_after (base_url @ ''/models'') (Some (username, 100)) pages = (u, params)"
    and "list_models world (length pages) u params = Response status_code body"
    and "status_code \<noteq> 200"
  shows "get_user_models world username =
           Some (requests_for (base_url @ ''/models'') (Some (username, 100)) pages
                   @ [Listing u params],
                 Inr (concat (map results pages)))"
  using fetch_pages_fail [OF first_url_not_empty assms(1,2,3) _ assms(5), of body "[]" "[]"]
    assms(4)
  by (simp add: get_user_models_def)

text \<open>Page 2 of 3 fails: the result is the entries of page 1, after two requests.\<close>

theorem fetcher_stops_at_failure_witness:
  "get_user_models second_page_fails ''bob'' =
     Some ([Listing ''https://api.sketchfab.com/v3/models'' (Some (''bob'', 100)),
            Listing ''https://api.sketchfab.com/v3/models?cursor=2'' None],
           Inr [robot, castle])"
proof -
  have 1: "\<forall>p \<in> set [page_one]. has_next p"
    by (simp add: has_next_def page_one_def)
  have 2: "serves (list_models second_page_fails) 0 (base_url @ ''/models'')
             (Some (''bob'', 100)) [page_one]"
    by (simp add: second_page_fails_def)
  have 3: "request_after (base_url @ ''/models'') (Some (''bob'', 100)) [page_one]
             = (''https://api.sketchfab.com/v3/models?cursor=2'', None)"
    by (simp add: pointer_def page_one_def)
  have 4: "list_models second_page_fails (length [page_one])
             ''https://api.sketchfab.com/v3/models?cursor=2'' None = Response 500 None"
    by (simp add: second_page_fails_def)
  have 5: "(500::nat) \<noteq> 200"
    by simp
  show ?thesis
    using fetcher_stops_at_failure [OF 1 2 3 4 5]
    by (simp add: base_url_def pointer_def page_one_def)
qed

section \<open>Properties of the downloader\<close>

lemma try_download_eq:
  "try_download world i m safe st =
     (let st1 = st\<lparr>requests := requests st @ [Resolve i (resolve_url m)]\<rparr> in
      case resolution world i m safe of
        Raised e \<Rightarrow> (st1, Some e)
      | Stopped r \<Rightarrow> (st1\<lparr>failed := failed st + 1, reports := reports st @ [r]\<rparr>, None)
      | Target download_url filepath \<Rightarrow>
          if filepath \<in> files st
          then (st1\<lparr>successful := successful st + 1,
                    reports := reports st @ [AlreadyExists]\<rparr>, None)
          else
            let st2 = st\<lparr>requests := requests st @ [Resolve i (resolve_url m), Transfer i download_url]\<rparr> in
            (case transferring world i download_url filepath of
               NoFile e \<Rightarrow> (st2, Some e)
             | Partial e \<Rightarrow> (st2\<lparr>files := insert filepath (files st)\<rparr>, Some e)
             | Complete \<Rightarrow>
                 (st2\<lparr>files := insert filepath (files st),
                      successful := successful st + 1,
                      reports := reports st @ [Saved]\<rparr>, None)))"
  unfolding try_download_def resolution_def transferring_def resolve_url_def Let_def
  by (auto split: reply.splits option.splits transfer_reply.splits)


lemma process_model_eq:
  "process_model world allowed i m st =
     (case license_label m of
        Inl e \<Rightarrow> (st, Some e)
      | Inr label \<Rightarrow>
          if \<not> license_matches label allowed
          then (st\<lparr>skipped_license := skipped_license st + 1,
                   reports := reports st @ [SkippedLicense]\<rparr>, None)
          else if \<not> isDownloadable m
          then (st\<lparr>failed := failed st + 1, reports := reports st @ [NotDownloadable]\<rparr>, None)
          else
            (case try_download world i m (safe_name (model_name m)) st of
               (st', None) \<Rightarrow> (st', None)
             | (st', Some e) \<Rightarrow>
                 if is_Exception e
                 then (st'\<lparr>failed := failed st' + 1,
                           reports := reports st' @ [FailedWith e]\<rparr>, None)
                 else (st', Some e)))"
  by (cases "license_label m") (simp_all add: process_model_def Let_def)

lemma try_download_tally:
  "try_download world i m safe st = (st', r) \<Longrightarrow>
     skipped_license st' = skipped_license st \<and>
     (case r of
        None \<Rightarrow> (successful st' = successful st + 1 \<and> failed st' = failed st) \<or>
                (successful st' = successful st \<and> failed st' = failed st + 1)
      | Some e \<Rightarrow> successful st' = successful st \<and> failed st' = failed st)"
  unfolding try_download_eq Let_def
  by (auto split: resolved.splits transferred.splits if_splits)

lemma process_model_tally:
  assumes "process_model world allowed i m st = (st', None)"
  shows "(successful st' = successful st + 1 \<and> failed st' = failed st \<and>
            skipped_license st' = skipped_license st) \<or>
         (successful st' = successful st \<and> failed st' = failed st + 1 \<and>
            skipped_license st' = skipped_license st) \<or>
         (successful st' = successful st \<and> failed st' = failed st \<and>
            skipped_license st' = skipped_license st + 1)"
proof (cases "license_label m")
  case (Inl e)
  then show ?thesis using assms by (simp add: process_model_eq)
next
  case (Inr label)
  show ?thesis
  proof (cases "license_matches label allowed \<and> isDownloadable m")
    case False
    then show ?thesis
      using assms Inr by (auto simp add: process_model_eq split: if_splits)
  next
    case True
    obtain st1 r where t: "try_download world i m (safe_name (model_name m)) st = (st1, r)"
      by (cases "try_download world i m (safe_name (model_name m)) st")
    show ?thesis
      using assms Inr True t try_download_tally [OF t]
      by (auto simp add: process_model_eq split: option.splits if_splits)
  qed
qed

lemma download_loop_tally:
  "download_loop world allowed i ms st = (st', None) \<Longrightarrow> tally st' = tally st + length ms"
proof (induction ms arbitrary: i st)
  case Nil
  then show ?case by simp
next
  case (Cons m ms)
  obtain st1 r where p: "process_model world allowed i m st = (st1, r)"
    by (cases "process_model world allowed i m st")
  show ?case
  proof (cases r)
    case None
    with Cons.prems p have "download_loop world allowed (Suc i) ms st1 = (st', None)"
      by simp
    then have "tally st' = tally st1 + length ms"
      by (rule Cons.IH)
    moreover have "tally st1 = tally st + 1"
      using process_model_tally [of world allowed i m st st1] p None
      by (auto simp add: tally_def)
    ultimately show ?thesis by simp
  next
    case (Some e)
    with Cons.prems p show ?thesis by simp
  qed
qed


lemma try_download_requests:
  "try_download world i m safe st = (st', r) \<Longrightarrow>
     \<exists>qs. requests st' = requests st @ qs \<and> (\<forall>q \<in> set qs. entry_of q = Some i)"
  unfolding try_download_eq Let_def
  by (auto split: resolved.splits transferred.splits if_splits)

lemma process_model_requests:
  assumes "process_model world allowed i m st = (st', r)"
  shows "\<exists>qs. requests st' = requests st @ qs \<and> (\<forall>q \<in> set qs. entry_of q = Some i) \<and>
              (qs \<noteq> [] \<longrightarrow> passes_gate allowed m)"
proof (cases "passes_gate allowed m")
  case False
  then have "requests st' = requests st"
    using assms
    by (auto simp add: process_model_eq passes_gate_def split: sum.splits if_splits)
  then show ?thesis by simp
next
  case True
  then obtain label where l: "license_label m = Inr label" "license_matches label allowed"
      "isDownloadable m"
    by (auto simp add: passes_gate_def split: sum.splits)
  obtain st1 r1 where t: "try_download world i m (safe_name (model_name m)) st = (st1, r1)"
    by (cases "try_download world i m (safe_name (model_name m)) st")
  from try_download_requests [OF t] obtain qs where
    qs: "requests st1 = requests st @ qs" "\<forall>q \<in> set qs. entry_of q = Some i"
    by blast
  have "requests st' = requests st1"
    using assms l t by (auto simp add: process_model_eq split: option.splits if_splits)
  then show ?thesis
    using qs True by auto
qed

lemma download_loop_requests:
  "download_loop world allowed i ms st = (st', r) \<Longrightarrow>
     \<exists>qs. requests st' = requests st @ qs \<and>
       (\<forall>q \<in> set qs. \<exists>k. entry_of q = Some k \<and> i \<le> k \<and> k < i + length ms \<and>
                          passes_gate allowed (ms ! (k - i)))"
proof (induction ms arbitrary: i st)
  case Nil
  then show ?case by simp
next
  case (Cons m ms)
  obtain st1 r1 where p: "process_model world allowed i m st = (st1, r1)"
    by (cases "process_model world allowed i m st")
  from process_model_requests [OF p] obtain qs1 where
    qs1: "requests st1 = requests st @ qs1" "\<forall>q \<in> set qs1. entry_of q = Some i"
      "qs1 \<noteq> [] \<longrightarrow> passes_gate allowed m"
    by blast
  have here: "\<exists>k. entry_of q = Some k \<and> i \<le> k \<and> k < i + length (m # ms) \<and>
                  passes_gate allowed ((m # ms) ! (k - i))" if "q \<in> set qs1" for q
    using that qs1 by (intro exI [of _ i]) auto
  show ?case
  proof (cases r1)
    case (Some e)
    then have "st' = st1" using Cons.prems p by simp
    then show ?thesis using qs1(1) here by auto
  next
    case None
    then have "download_loop world allowed (Suc i) ms st1 = (st', r)"
      using Cons.prems p by simp
    from Cons.IH [OF this] obtain qs2 where
      qs2: "requests st' = requests st1 @ qs2"
        "\<forall>q \<in> set qs2. \<exists>k. entry_of q = Some k \<and> Suc i \<le> k \<and> k < Suc i + length ms \<and>
                          passes_gate allowed (ms ! (k - Suc i))"
      by blast
    have later: "\<exists>k. entry_of q = Some k \<and> i \<le> k \<and> k < i + length (m # ms) \<and>
                  passes_gate allowed ((m # ms) ! (k - i))" if "q \<in> set qs2" for q
    proof -
      from qs2(2) that obtain k where
        k: "entry_of q = Some k" "Suc i \<le> k" "k < Suc i + length ms"
          "passes_gate allowed (ms ! (k - Suc i))"
        by blast
      from k(2) have "k - i = Suc (k - Suc i)" by simp
      then have "(m # ms) ! (k - i) = ms ! (k - Suc i)" by simp
      with k show ?thesis by (intro exI [of _ k]) simp
    qed
    have "requests st' = requests st @ (qs1 @ qs2)"
      using qs1(1) qs2(1) by simp
    moreover have "\<forall>q \<in> set (qs1 @ qs2). \<exists>k. entry_of q = Some k \<and> i \<le> k \<and>
        k < i + length (m # ms) \<and> passes_gate allowed ((m # ms) ! (k - i))"
      using here later by auto
    ultimately show ?thesis by blast
  qed
qed

lemma fetch_pages_requests_aux:
  "fetch_pages get k url params models issued = Some y \<Longrightarrow>
     (\<forall>q \<in> set issued. entry_of q = None) \<longrightarrow> (\<forall>q \<in> set (fst y). entry_of q = None)"
proof (induction rule: fetch_pages.raw_induct [rotated, consumes 1])
  case (1 fetch get k url params models issued y)
  show ?case
  proof
    assume old: "\<forall>q \<in> set issued. entry_of q = None"
    show "\<forall>q \<in> set (fst y). entry_of q = None"
    proof (cases url)
      case None
      then show ?thesis using 1(2) old by auto
    next
      case (Some u)
      show ?thesis
      proof (cases "u = []")
        case True
        then show ?thesis using 1(2) old Some by auto
      next
        case False
        have new: "\<forall>q \<in> set (issued @ [Listing u params]). entry_of q = None"
          using old by simp
        show ?thesis
        proof (cases "get k u params")
          case (Raises e)
          then show ?thesis using 1(2) Some False new by auto
        next
          case (Response status_code body)
          show ?thesis
          proof (cases "status_code \<noteq> 200 \<or> body = None")
            case True
            then show ?thesis using 1(2) Some False new Response by (auto split: if_splits)
          next
            case ok: False
            then obtain data where data: "body = Some data" by auto
            have "fetch get (Suc k) (next_url data) None (models @ results data)
                    (issued @ [Listing u params]) = Some y"
              using 1(2) Some False Response ok data by simp
            from 1(1) [OF this] new show ?thesis by blast
          qed
        qed
      qed
    qed
  qed
qed


lemma get_user_models_requests:
  "get_user_models world username = Some (issued, res) \<Longrightarrow> \<forall>q \<in> set issued. entry_of q = None"
  using fetch_pages_requests_aux
    [of "list_models world" 0 "Some (base_url @ ''/models'')" "Some (username, 100)" "[]" "[]"
      "(issued, res)"]
  by (simp add: get_user_models_def)

text \<open>How a call that reaches the summary got there.\<close>

lemma download_author_models_Summary:
  assumes "download_author_models world api_token username licenses on_disk
             = Some (Summary, models, final)"
  shows "\<exists>issued. get_user_models world username = Some (issued, Inr models) \<and>
           api_token \<noteq> None \<and> api_token \<noteq> Some [] \<and> models \<noteq> [] \<and>
           open_file world 0 ''models_metadata.json'' = None \<and>
           download_loop world (tokens_of licenses) 1 models (starting issued on_disk)
             = (final, None)"
  using assms
  unfolding download_author_models_def tokens_of_def starting_def Let_def
  by (auto split: if_splits option.splits sum.splits prod.splits)

lemma download_author_models_reached:
  assumes "get_user_models world username = Some (issued, Inr models)"
    and "api_token \<noteq> None" and "api_token \<noteq> Some []" and "models \<noteq> []"
    and "open_file world 0 ''models_metadata.json'' = None"
    and "download_loop world (tokens_of licenses) 1 models (starting issued on_disk)
           = (final, None)"
  shows "download_author_models world api_token username licenses on_disk
           = Some (Summary, models, final)"
  using assms
  unfolding download_author_models_def tokens_of_def starting_def Let_def
  by (auto split: if_splits option.splits sum.splits prod.splits)

text \<open>The run of the service \<open>two_pages\<close> on an empty directory.\<close>

lemma two_pages_run:
  "download_author_models two_pages (Some ''token'') ''bob'' None {} =
     Some (Summary, [robot, castle, statue],
       \<lparr>successful = 1, failed = 1, skipped_license = 1,
        files = {''RobotModelv2_a1.zip'', ''models_metadata.json''},
        requests =
          [Listing ''https://api.sketchfab.com/v3/models'' (Some (''bob'', 100)),
           Listing ''https://api.sketchfab.com/v3/models?cursor=2'' None,
           Resolve 1 ''https://api.sketchfab.com/v3/models/a1/download'',
           Transfer 1 ''https://cdn.example/a1/robot.zip?sig=1''],
        reports = [Saved, SkippedLicense, NotDownloadable]\<rparr>)"
  by code_simp


text \<open>
  C10. An iteration of the loop that ends without an exception adds one to exactly one
  of the three counters and leaves the other two; so when a run reaches its summary,
  the three counters add up to the number of catalog entries.
\<close>

theorem each_entry_tallied_once:
  "(process_model world allowed i m st = (st', None) \<longrightarrow>
      (successful st' = successful st + 1 \<and> failed st' = failed st \<and>
         skipped_license st' = skipped_license st) \<or>
      (successful st' = successful st \<and> failed st' = failed st + 1 \<and>
         skipped_license st' = skipped_license st) \<or>
      (successful st' = successful st \<and> failed st' = failed st \<and>
         skipped_license st' = skipped_license st + 1)) \<and>
   (download_author_models world api_token username licenses on_disk
      = Some (Summary, models, final) \<longrightarrow>
    successful final + failed final + skipped_license final = length models)"
proof (intro conjI impI)
  assume "process_model world allowed i m st = (st', None)"
  then show "(successful st' = successful st + 1 \<and> failed st' = failed st \<and>
         skipped_license st' = skipped_license st) \<or>
      (successful st' = successful st \<and> failed st' = failed st + 1 \<and>
         skipped_license st' = skipped_license st) \<or>
      (successful st' = successful st \<and> failed st' = failed st \<and>
         skipped_license st' = skipped_license st + 1)"
    by (rule process_model_tally)
next
  assume "download_author_models world api_token username licenses on_disk
            = Some (Summary, models, final)"
  then obtain issued where
    "download_loop world (tokens_of licenses) 1 models (starting issued on_disk) = (final, None)"
    using download_author_models_Summary by blast
  then have "tally final = tally (starting issued on_disk) + length models"
    by (rule download_loop_tally)
  then show "successful final + failed final + skipped_license final = length models"
    by (simp add: tally_def starting_def)
qed

theorem each_entry_tallied_once_witness:
  "\<exists>final. download_author_models two_pages (Some ''token'') ''bob'' None {}
             = Some (Summary, [robot, castle, statue], final) \<and>
           successful final + failed final + skipped_license final = 3"
proof -
  from two_pages_run obtain final where
    run: "download_author_models two_pages (Some ''token'') ''bob'' None {}
            = Some (Summary, [robot, castle, statue], final)"
    by blast
  from each_entry_tallied_once
    [where world = two_pages and api_token = "Some ''token''" and username = "''bob''"
       and licenses = None and on_disk = "{}" and models = "[robot, castle, statue]"
       and final = final] run
  have "successful final + failed final + skipped_license final = 3"
    by simp
  with run show ?thesis by blast
qed

lemma download_author_models_requests:
  assumes "download_author_models world api_token username licenses on_disk
             = Some (how, models, final)"
    and "q \<in> set (requests final)" and "entry_of q = Some k"
  shows "1 \<le> k \<and> k \<le> length models \<and> passes_gate (tokens_of licenses) (models ! (k - 1))"
proof (cases "api_token = None \<or> api_token = Some []")
  case True
  then show ?thesis
    using assms by (auto simp add: download_author_models_def)
next
  case token: False
  show ?thesis
  proof (cases "get_user_models world username")
    case None
    then show ?thesis
      using assms token by (simp add: download_author_models_def Let_def)
  next
    case (Some fetched)
    obtain issued res where f: "fetched = (issued, res)" by (cases fetched)
    have listing: "\<forall>q \<in> set issued. entry_of q = None"
      using get_user_models_requests Some f by blast
    have only_listing: False if "requests final = issued"
      using that listing assms(2,3) by auto
    show ?thesis
    proof (cases res)
      case (Inl e)
      then have "requests final = issued"
        using assms(1) token Some f by (auto simp add: download_author_models_def Let_def)
      then show ?thesis using only_listing by blast
    next
      case (Inr ms)
      show ?thesis
      proof (cases "ms = [] \<or> open_file world 0 ''models_metadata.json'' \<noteq> None")
        case True
        then have "requests final = issued"
          using assms(1) token Some f Inr
          by (auto simp add: download_author_models_def Let_def split: if_splits)
        then show ?thesis using only_listing by blast
      next
        case False
        obtain st' r where
          loop: "download_loop world (tokens_of licenses) 1 ms (starting issued on_disk) = (st', r)"
          by (cases "download_loop world (tokens_of licenses) 1 ms (starting issued on_disk)")
        have fin: "final = st' \<and> models = ms"
          using assms(1) token Some f Inr False loop
          by (auto simp add: download_author_models_def Let_def tokens_of_def starting_def
              split: option.splits)
        from download_loop_requests [OF loop] obtain qs where
          qs: "requests st' = requests (starting issued on_disk) @ qs"
            "\<forall>q \<in> set qs. \<exists>k. entry_of q = Some k \<and> 1 \<le> k \<and> k < 1 + length ms \<and>
                 passes_gate (tokens_of licenses) (ms ! (k - 1))"
          by blast
        have "q \<in> set issued \<or> q \<in> set qs"
          using assms(2) fin qs(1) by (simp add: starting_def)
        then have "q \<in> set qs"
          using listing assms(3) by auto
        then show ?thesis
          using qs(2) assms(3) fin by fastforce
      qed
    qed
  qed
qed

text \<open>
  C6. An entry whose license label fails the predicate is counted as skipped, whether
  it is downloadable or not, and an entry that passes the predicate and is not
  downloadable is counted as failed; in both cases the iteration changes nothing but
  that counter and the reports, so it issues no request. In a whole run, every
  resolution or transfer request is issued for an entry that passes both checks.
\<close>

theorem gated_entries_issue_no_request:
  "(license_label m = Inr label \<and> \<not> license_matches label allowed \<longrightarrow>
      process_model world allowed i m st =
        (st\<lparr>skipped_license := skipped_license st + 1,
            reports := reports st @ [SkippedLicense]\<rparr>, None)) \<and>
   (license_label m = Inr label \<and> license_matches label allowed \<and> \<not> isDownloadable m \<longrightarrow>
      process_model world allowed i m st =
        (st\<lparr>failed := failed st + 1, reports := reports st @ [NotDownloadable]\<rparr>, None)) \<and>
   (download_author_models world api_token username licenses on_disk
      = Some (how, models, final) \<and> q \<in> set (requests final) \<and> entry_of q = Some k \<longrightarrow>
    1 \<le> k \<and> k \<le> length models \<and> passes_gate (tokens_of licenses) (models ! (k - 1)))"
  using download_author_models_requests [of world api_token username licenses on_disk how
      models final q k]
  by (simp add: process_model_eq)


text \<open>
  In the run of \<open>two_pages\<close>, the second entry fails the license check and the third
  is not downloadable; the one resolution request is for the first entry, which passes
  both checks.
\<close>

theorem gated_entries_issue_no_request_witness:
  "process_model two_pages default_licenses 2 castle fresh =
     (fresh\<lparr>skipped_license := 1, reports := [SkippedLicense]\<rparr>, None) \<and>
   process_model two_pages default_licenses 3 statue fresh =
     (fresh\<lparr>failed := 1, reports := [NotDownloadable]\<rparr>, None) \<and>
   passes_gate (tokens_of None) ([robot, castle, statue] ! (1 - 1))"
proof -
  have c1: "license_label castle = Inr ''cc-by-sa 4.0''"
    by code_simp
  have c2: "\<not> license_matches ''cc-by-sa 4.0'' default_licenses"
    by code_simp
  have s1: "license_label statue = Inr ''cc0 1.0''"
    by code_simp
  have s2: "license_matches ''cc0 1.0'' default_licenses"
    by code_simp
  have s3: "\<not> isDownloadable statue"
    by (simp add: statue_def)
  have r1: "Resolve 1 ''https://api.sketchfab.com/v3/models/a1/download''
              \<in> set (requests \<lparr>successful = 1, failed = 1, skipped_license = 1,
        files = {''RobotModelv2_a1.zip'', ''models_metadata.json''},
        requests =
          [Listing ''https://api.sketchfab.com/v3/models'' (Some (''bob'', 100)),
           Listing ''https://api.sketchfab.com/v3/models?cursor=2'' None,
           Resolve 1 ''https://api.sketchfab.com/v3/models/a1/download'',
           Transfer 1 ''https://cdn.example/a1/robot.zip?sig=1''],
        reports = [Saved, SkippedLicense, NotDownloadable]\<rparr>)"
    by simp
  have r2: "entry_of (Resolve 1 ''https://api.sketchfab.com/v3/models/a1/download'') = Some 1"
    by simp
  have a: "process_model two_pages default_licenses 2 castle fresh =
     (fresh\<lparr>skipped_license := 1, reports := [SkippedLicense]\<rparr>, None)"
    using gated_entries_issue_no_request
      [where m = castle and label = "''cc-by-sa 4.0''" and allowed = default_licenses
         and world = two_pages and i = 2 and st = fresh] c1 c2
    by (simp add: fresh_def)
  have b: "process_model two_pages default_licenses 3 statue fresh =
     (fresh\<lparr>failed := 1, reports := [NotDownloadable]\<rparr>, None)"
    using gated_entries_issue_no_request
      [where m = statue and label = "''cc0 1.0''" and allowed = default_licenses
         and world = two_pages and i = 3 and st = fresh] s1 s2 s3
    by (simp add: fresh_def)
  have c: "passes_gate (tokens_of None) ([robot, castle, statue] ! (1 - 1))"
    using gated_entries_issue_no_request
      [where world = two_pages and api_token = "Some ''token''" and username = "''bob''"
         and licenses = None and on_disk = "{}" and how = Summary
         and models = "[robot, castle, statue]"
         and q = "Resolve 1 ''https://api.sketchfab.com/v3/models/a1/download''" and k = 1]
      two_pages_run r1 r2
    by blast
  from a b c show ?thesis by blast
qed

text \<open>
  On the disk that is full, opening the destination file of the first entry raises
  \<^verbatim>\<open>OSError\<close> inside the \<^verbatim>\<open>try\<close>. That is no exception of the transport layer, yet
  line 212 catches it: the entry is counted as failed and the loop goes on to the second
  entry.
\<close>

theorem non_transport_exception_counterexample:
  "try_download full_disk 1 robot (safe_name (model_name robot)) fresh =
     (fresh\<lparr>requests := [Resolve 1 ''https://api.sketchfab.com/v3/models/a1/download'',
                          Transfer 1 ''https://cdn.example/a1/robot.zip?sig=1'']\<rparr>,
      Some OSError) \<and>
   \<not> transport_layer OSError \<and>
   download_loop full_disk default_licenses 1 [robot, castle] fresh =
     (fresh\<lparr>failed := 1, skipped_license := 1,
            requests := [Resolve 1 ''https://api.sketchfab.com/v3/models/a1/download'',
                         Transfer 1 ''https://cdn.example/a1/robot.zip?sig=1''],
            reports := [FailedWith OSError, SkippedLicense]\<rparr>, None)"
  by code_simp

text \<open>
  C9. In the download loop, an exception raised while the label of an entry is read,
  before the \<^verbatim>\<open>try\<close>, leaves the loop at once. An exception raised inside the \<^verbatim>\<open>try\<close>
  is caught when its class derives from \<^verbatim>\<open>Exception\<close>, whatever its kind: the entry is
  counted as failed and the loop goes on with the next entry. An exception of any other
  class leaves the loop, and the run ends with it.
\<close>

theorem exceptions_in_download_loop:
  "(license_label m = Inl e \<longrightarrow>
      download_loop world allowed i (m # ms) st = (st, Some e)) \<and>
   (passes_gate allowed m \<and>
    try_download world i m (safe_name (model_name m)) st = (st1, Some e) \<longrightarrow>
      download_loop world allowed i (m # ms) st =
        (if is_Exception e
         then download_loop world allowed (Suc i) ms
                (st1\<lparr>failed := failed st1 + 1, reports := reports st1 @ [FailedWith e]\<rparr>)
         else (st1, Some e))) \<and>
   (get_user_models world username = Some (issued, Inr models) \<and>
    api_token \<noteq> None \<and> api_token \<noteq> Some [] \<and> models \<noteq> [] \<and>
    open_file world 0 ''models_metadata.json'' = None \<and>
    download_loop world (tokens_of licenses) 1 models (starting issued on_disk)
      = (final, Some e) \<longrightarrow>
      download_author_models world api_token username licenses on_disk
        = Some (Propagated e, models, final))"
proof (intro conjI impI)
  assume "license_label m = Inl e"
  then show "download_loop world allowed i (m # ms) st = (st, Some e)"
    by (simp add: process_model_eq)
next
  assume a: "passes_gate allowed m \<and>
    try_download world i m (safe_name (model_name m)) st = (st1, Some e)"
  then obtain label where "license_label m = Inr label" "license_matches label allowed"
    "isDownloadable m"
    by (auto simp add: passes_gate_def split: sum.splits)
  then show "download_loop world allowed i (m # ms) st =
        (if is_Exception e
         then download_loop world allowed (Suc i) ms
                (st1\<lparr>failed := failed st1 + 1, reports := reports st1 @ [FailedWith e]\<rparr>)
         else (st1, Some e))"
    using a by (simp add: process_model_eq)
next
  assume "get_user_models world username = Some (issued, Inr models) \<and>
    api_token \<noteq> None \<and> api_token \<noteq> Some [] \<and> models \<noteq> [] \<and>
    open_file world 0 ''models_metadata.json'' = None \<and>
    download_loop world (tokens_of licenses) 1 models (starting issued on_disk)
      = (final, Some e)"
  then show "download_author_models world api_token username licenses on_disk
        = Some (Propagated e, models, final)"
    unfolding download_author_models_def tokens_of_def starting_def Let_def
    by (auto split: if_splits option.splits sum.splits prod.splits)
qed


text \<open>
  A \<^verbatim>\<open>null\<close> license raises \<^verbatim>\<open>AttributeError\<close> before the \<^verbatim>\<open>try\<close> and ends the loop;
  the \<^verbatim>\<open>OSError\<close> of the full disk is caught and the loop goes on with the second
  entry; \<^verbatim>\<open>KeyboardInterrupt\<close> inside the \<^verbatim>\<open>try\<close> ends the loop.
\<close>

theorem exceptions_in_download_loop_witness:
  "download_loop two_pages default_licenses 1 [unlicensed, robot] fresh
     = (fresh, Some AttributeError) \<and>
   download_loop full_disk default_licenses 1 [robot, castle] fresh
     = download_loop full_disk default_licenses 2 [castle]
         (fresh\<lparr>failed := 1,
                requests := [Resolve 1 ''https://api.sketchfab.com/v3/models/a1/download'',
                             Transfer 1 ''https://cdn.example/a1/robot.zip?sig=1''],
                reports := [FailedWith OSError]\<rparr>) \<and>
   download_loop interrupted default_licenses 1 [robot, castle] fresh
     = (fresh\<lparr>requests := [Resolve 1 ''https://api.sketchfab.com/v3/models/a1/download'',
                             Transfer 1 ''https://cdn.example/a1/robot.zip?sig=1'']\<rparr>,
        Some KeyboardInterrupt)"
proof -
  have u: "license_label unlicensed = Inl AttributeError"
    by code_simp
  have g: "passes_gate default_licenses robot"
    by code_simp
  have f: "try_download full_disk 1 robot (safe_name (model_name robot)) fresh =
     (fresh\<lparr>requests := [Resolve 1 ''https://api.sketchfab.com/v3/models/a1/download'',
                          Transfer 1 ''https://cdn.example/a1/robot.zip?sig=1'']\<rparr>,
      Some OSError)"
    by code_simp
  have k: "try_download interrupted 1 robot (safe_name (model_name robot)) fresh =
     (fresh\<lparr>requests := [Resolve 1 ''https://api.sketchfab.com/v3/models/a1/download'',
                          Transfer 1 ''https://cdn.example/a1/robot.zip?sig=1'']\<rparr>,
      Some KeyboardInterrupt)"
    by code_simp
  have a: "download_loop two_pages default_licenses 1 [unlicensed, robot] fresh
     = (fresh, Some AttributeError)"
    using exceptions_in_download_loop
      [where m = unlicensed and e = AttributeError and world = two_pages
         and allowed = default_licenses and i = 1 and ms = "[robot]" and st = fresh] u
    by blast
  have b: "download_loop full_disk default_licenses 1 [robot, castle] fresh
     = download_loop full_disk default_licenses 2 [castle]
         (fresh\<lparr>failed := 1,
                requests := [Resolve 1 ''https://api.sketchfab.com/v3/models/a1/download'',
                             Transfer 1 ''https://cdn.example/a1/robot.zip?sig=1''],
                reports := [FailedWith OSError]\<rparr>)"
    using exceptions_in_download_loop
      [where m = robot and e = OSError and world = full_disk
         and allowed = default_licenses and i = 1 and ms = "[castle]" and st = fresh] g f
    by (simp add: is_Exception_def fresh_def numeral_2_eq_2)
  have c: "download_loop interrupted default_licenses 1 [robot, castle] fresh
     = (fresh\<lparr>requests := [Resolve 1 ''https://api.sketchfab.com/v3/models/a1/download'',
                             Transfer 1 ''https://cdn.example/a1/robot.zip?sig=1'']\<rparr>,
        Some KeyboardInterrupt)"
    using exceptions_in_download_loop
      [where m = robot and e = KeyboardInterrupt and world = interrupted
         and allowed = default_licenses and i = 1 and ms = "[castle]" and st = fresh] g k
    by (simp add: is_Exception_def)
  from a b c show ?thesis by blast
qed


section \<open>Running the downloader again\<close>

lemma try_download_files: "try_download world i m safe st = (st', r) \<Longrightarrow> files st \<subseteq> files st'"
  unfolding try_download_eq Let_def
  by (auto split: resolved.splits transferred.splits if_splits)

lemma process_model_files:
  assumes "process_model world allowed i m st = (st', r)"
  shows "files st \<subseteq> files st'"
proof -
  obtain st1 r1 where t: "try_download world i m (safe_name (model_name m)) st = (st1, r1)"
    by (cases "try_download world i m (safe_name (model_name m)) st")
  have "files st' = files st \<or> files st' = files st1"
    using assms t
    by (auto simp add: process_model_eq split: sum.splits if_splits option.splits)
  then show ?thesis
    using try_download_files [OF t] by auto
qed

lemma download_loop_files:
  "download_loop world allowed i ms st = (st', r) \<Longrightarrow> files st \<subseteq> files st'"
proof (induction ms arbitrary: i st)
  case Nil
  then show ?case by simp
next
  case (Cons m ms)
  obtain st1 r1 where p: "process_model world allowed i m st = (st1, r1)"
    by (cases "process_model world allowed i m st")
  show ?case
  proof (cases r1)
    case None
    then have "download_loop world allowed (Suc i) ms st1 = (st', r)"
      using Cons.prems p by simp
    then have "files st1 \<subseteq> files st'" by (rule Cons.IH)
    then show ?thesis using process_model_files [OF p] by blast
  next
    case (Some e)
    then have "st' = st1" using Cons.prems p by simp
    then show ?thesis using process_model_files [OF p] by blast
  qed
qed

lemma process_model_passing:
  assumes "license_label m = Inr label" and "license_matches label allowed"
    and "isDownloadable m"
  shows "process_model world allowed i m st =
     (case resolution world i m (safe_name (model_name m)) of
        Raised e \<Rightarrow>
          if is_Exception e
          then (st\<lparr>failed := failed st + 1,
                   requests := requests st @ [Resolve i (resolve_url m)],
                   reports := reports st @ [FailedWith e]\<rparr>, None)
          else (st\<lparr>requests := requests st @ [Resolve i (resolve_url m)]\<rparr>, Some e)
      | Stopped r \<Rightarrow>
          (st\<lparr>failed := failed st + 1,
              requests := requests st @ [Resolve i (resolve_url m)],
              reports := reports st @ [r]\<rparr>, None)
      | Target download_url filepath \<Rightarrow>
          if filepath \<in> files st
          then (st\<lparr>successful := successful st + 1,
                   requests := requests st @ [Resolve i (resolve_url m)],
                   reports := reports st @ [AlreadyExists]\<rparr>, None)
          else
            (case transferring world i download_url filepath of
               NoFile e \<Rightarrow>
                 if is_Exception e
                 then (st\<lparr>failed := failed st + 1,
                          requests := requests st @
                            [Resolve i (resolve_url m), Transfer i download_url],
                          reports := reports st @ [FailedWith e]\<rparr>, None)
                 else (st\<lparr>requests := requests st @
                            [Resolve i (resolve_url m), Transfer i download_url]\<rparr>, Some e)
             | Partial e \<Rightarrow>
                 if is_Exception e
                 then (st\<lparr>failed := failed st + 1,
                          files := insert filepath (files st),
                          requests := requests st @
                            [Resolve i (resolve_url m), Transfer i download_url],
                          reports := reports st @ [FailedWith e]\<rparr>, None)
                 else (st\<lparr>files := insert filepath (files st),
                          requests := requests st @
                            [Resolve i (resolve_url m), Transfer i download_url]\<rparr>, Some e)
             | Complete \<Rightarrow>
                 (st\<lparr>successful := successful st + 1,
                     files := insert filepath (files st),
                     requests := requests st @
                       [Resolve i (resolve_url m), Transfer i download_url],
                     reports := reports st @ [Saved]\<rparr>, None)))"
  using assms
  by (simp add: process_model_eq try_download_eq Let_def
      split: resolved.splits transferred.splits)

lemma repeats_oneI:
  assumes "reports s' = reports s @ [r1]" and "reports t' = reports t @ [r2]"
    and "requests t' = requests t @ qs" and "files t' = files t"
    and "success_report r1 \<Longrightarrow> r2 = AlreadyExists"
    and "\<And>k u. Transfer k u \<in> set qs \<Longrightarrow> k = i \<and> \<not> success_report r1"
    and "successful s' + successful t \<le> successful t' + successful s"
  shows "repeats i 1 s s' t t'"
proof -
  have "length [r1] = 1 \<and> length [r2] = 1 \<and>
        reports s' = reports s @ [r1] \<and> reports t' = reports t @ [r2] \<and>
        requests t' = requests t @ qs \<and> files t' = files t \<and>
        (\<forall>j < 1. success_report ([r1] ! j) \<longrightarrow> [r2] ! j = AlreadyExists) \<and>
        (\<forall>k u. Transfer k u \<in> set qs \<longrightarrow>
           i \<le> k \<and> k < i + 1 \<and> \<not> success_report ([r1] ! (k - i))) \<and>
        successful s' + successful t \<le> successful t' + successful s"
    using assms by auto
  then show ?thesis
    unfolding repeats_def by blast
qed


lemma process_model_repeats:
  assumes first: "process_model world allowed i m s = (s', None)"
    and sub: "files s' \<subseteq> files t"
  shows "\<exists>t'. process_model world allowed i m t = (t', None) \<and> repeats i 1 s s' t t'"
proof (cases "license_label m")
  case (Inl e)
  then show ?thesis
    using first by (simp add: process_model_eq)
next
  case (Inr label)
  show ?thesis
  proof (cases "license_matches label allowed")
    case False
    have s': "s' = s\<lparr>skipped_license := skipped_license s + 1,
                     reports := reports s @ [SkippedLicense]\<rparr>"
      using first Inr False by (simp add: process_model_eq)
    let ?t' = "t\<lparr>skipped_license := skipped_license t + 1,
                  reports := reports t @ [SkippedLicense]\<rparr>"
    have "process_model world allowed i m t = (?t', None)"
      using Inr False by (simp add: process_model_eq)
    moreover have "repeats i 1 s s' t ?t'"
      by (rule repeats_oneI [where ?r1.0 = SkippedLicense and ?r2.0 = SkippedLicense
            and qs = "[]"])
        (simp_all add: s' success_report_def)
    ultimately show ?thesis by blast
  next
    case matches: True
    show ?thesis
    proof (cases "isDownloadable m")
      case False
      have s': "s' = s\<lparr>failed := failed s + 1, reports := reports s @ [NotDownloadable]\<rparr>"
        using first Inr matches False by (simp add: process_model_eq)
      let ?t' = "t\<lparr>failed := failed t + 1, reports := reports t @ [NotDownloadable]\<rparr>"
      have "process_model world allowed i m t = (?t', None)"
        using Inr matches False by (simp add: process_model_eq)
      moreover have "repeats i 1 s s' t ?t'"
        by (rule repeats_oneI [where ?r1.0 = NotDownloadable and ?r2.0 = NotDownloadable
              and qs = "[]"])
          (simp_all add: s' success_report_def)
      ultimately show ?thesis by blast
    next
      case True
      note pm = process_model_passing [OF Inr matches True]
      show ?thesis
      proof (cases "resolution world i m (safe_name (model_name m))")
        case (Stopped r)
        have r: "\<not> success_report r"
          using Stopped
          by (auto simp add: resolution_def success_report_def
              split: reply.splits option.splits if_splits)
        have s': "s' = s\<lparr>failed := failed s + 1,
              requests := requests s @ [Resolve i (resolve_url m)],
              reports := reports s @ [r]\<rparr>"
          using first Stopped by (simp add: pm)
        let ?t' = "t\<lparr>failed := failed t + 1,
              requests := requests t @ [Resolve i (resolve_url m)],
              reports := reports t @ [r]\<rparr>"
        have "process_model world allowed i m t = (?t', None)"
          using Stopped by (simp add: pm)
        moreover have "repeats i 1 s s' t ?t'"
          by (rule repeats_oneI [where ?r1.0 = r and ?r2.0 = r
                and qs = "[Resolve i (resolve_url m)]"])
            (simp_all add: s' r)
        ultimately show ?thesis by blast
      next
        case (Raised e)
        have e: "is_Exception e"
          using first Raised by (simp add: pm split: if_splits)
        have s': "s' = s\<lparr>failed := failed s + 1,
                   requests := requests s @ [Resolve i (resolve_url m)],
                   reports := reports s @ [FailedWith e]\<rparr>"
          using first Raised e by (simp add: pm)
        let ?t' = "t\<lparr>failed := failed t + 1,
                   requests := requests t @ [Resolve i (resolve_url m)],
                   reports := reports t @ [FailedWith e]\<rparr>"
        have "process_model world allowed i m t = (?t', None)"
          using Raised e by (simp add: pm)
        moreover have "repeats i 1 s s' t ?t'"
          by (rule repeats_oneI [where ?r1.0 = "FailedWith e" and ?r2.0 = "FailedWith e"
                and qs = "[Resolve i (resolve_url m)]"])
            (simp_all add: s' success_report_def)
        ultimately show ?thesis by blast
      next
        case (Target download_url filepath)
        let ?exists = "t\<lparr>successful := successful t + 1,
                   requests := requests t @ [Resolve i (resolve_url m)],
                   reports := reports t @ [AlreadyExists]\<rparr>"
        have exists: "process_model world allowed i m t = (?exists, None)"
          if "filepath \<in> files t"
          using Target that by (simp add: pm)
        show ?thesis
        proof (cases "filepath \<in> files s")
          case True
          have s': "s' = s\<lparr>successful := successful s + 1,
                   requests := requests s @ [Resolve i (resolve_url m)],
                   reports := reports s @ [AlreadyExists]\<rparr>"
            using first Target True by (simp add: pm)
          then have "filepath \<in> files t"
            using True sub by auto
          moreover have "repeats i 1 s s' t ?exists"
            by (rule repeats_oneI [where ?r1.0 = AlreadyExists and ?r2.0 = AlreadyExists
                  and qs = "[Resolve i (resolve_url m)]"])
              (simp_all add: s')
          ultimately show ?thesis using exists by blast
        next
          case False
          show ?thesis
          proof (cases "transferring world i download_url filepath")
            case Complete
            have s': "s' = s\<lparr>successful := successful s + 1,
                     files := insert filepath (files s),
                     requests := requests s @
                       [Resolve i (resolve_url m), Transfer i download_url],
                     reports := reports s @ [Saved]\<rparr>"
              using first Target False Complete by (simp add: pm)
            then have "filepath \<in> files t"
              using sub by auto
            moreover have "repeats i 1 s s' t ?exists"
              by (rule repeats_oneI [where ?r1.0 = Saved and ?r2.0 = AlreadyExists
                    and qs = "[Resolve i (resolve_url m)]"])
                (simp_all add: s')
            ultimately show ?thesis using exists by blast
          next
            case (Partial e)
            have e: "is_Exception e"
              using first Target False Partial by (simp add: pm split: if_splits)
            have s': "s' = s\<lparr>failed := failed s + 1,
                          files := insert filepath (files s),
                          requests := requests s @
                            [Resolve i (resolve_url m), Transfer i download_url],
                          reports := reports s @ [FailedWith e]\<rparr>"
              using first Target False Partial e by (simp add: pm)
            then have "filepath \<in> files t"
              using sub by auto
            moreover have "repeats i 1 s s' t ?exists"
              by (rule repeats_oneI [where ?r1.0 = "FailedWith e" and ?r2.0 = AlreadyExists
                    and qs = "[Resolve i (resolve_url m)]"])
                (simp_all add: s' success_report_def)
            ultimately show ?thesis using exists by blast
          next
            case (NoFile e)
            have e: "is_Exception e"
              using first Target False NoFile by (simp add: pm split: if_splits)
            have s': "s' = s\<lparr>failed := failed s + 1,
                          requests := requests s @
                            [Resolve i (resolve_url m), Transfer i download_url],
                          reports := reports s @ [FailedWith e]\<rparr>"
              using first Target False NoFile e by (simp add: pm)
            show ?thesis
            proof (cases "filepath \<in> files t")
              case True
              have "repeats i 1 s s' t ?exists"
                by (rule repeats_oneI [where ?r1.0 = "FailedWith e" and ?r2.0 = AlreadyExists
                      and qs = "[Resolve i (resolve_url m)]"])
                  (simp_all add: s' success_report_def)
              then show ?thesis using exists True by blast
            next
              case absent: False
              let ?t' = "t\<lparr>failed := failed t + 1,
                          requests := requests t @
                            [Resolve i (resolve_url m), Transfer i download_url],
                          reports := reports t @ [FailedWith e]\<rparr>"
              have "process_model world allowed i m t = (?t', None)"
                using Target absent NoFile e by (simp add: pm)
              moreover have "repeats i 1 s s' t ?t'"
                by (rule repeats_oneI [where ?r1.0 = "FailedWith e" and ?r2.0 = "FailedWith e"
                      and qs = "[Resolve i (resolve_url m), Transfer i download_url]"])
                  (simp_all add: s' success_report_def)
              ultimately show ?thesis by blast
            qed
          qed
        qed
      qed
    qed
  qed
qed


lemma repeats_Nil: "repeats i 0 s s t t"
  by (simp add: repeats_def)

lemma repeats_Suc:
  assumes "repeats i 1 s s1 t t1" and "repeats (Suc i) n s1 s' t1 t'"
  shows "repeats i (Suc n) s s' t t'"
proof -
  from assms(1) obtain rs1a rs2a qsa where a:
    "length rs1a = 1" "length rs2a = 1"
    "reports s1 = reports s @ rs1a" "reports t1 = reports t @ rs2a"
    "requests t1 = requests t @ qsa" "files t1 = files t"
    "\<forall>j < 1. success_report (rs1a ! j) \<longrightarrow> rs2a ! j = AlreadyExists"
    "\<forall>k u. Transfer k u \<in> set qsa \<longrightarrow> i \<le> k \<and> k < i + 1 \<and> \<not> success_report (rs1a ! (k - i))"
    "successful s1 + successful t \<le> successful t1 + successful s"
    unfolding repeats_def by blast
  from assms(2) obtain rs1b rs2b qsb where b:
    "length rs1b = n" "length rs2b = n"
    "reports s' = reports s1 @ rs1b" "reports t' = reports t1 @ rs2b"
    "requests t' = requests t1 @ qsb" "files t' = files t1"
    "\<forall>j < n. success_report (rs1b ! j) \<longrightarrow> rs2b ! j = AlreadyExists"
    "\<forall>k u. Transfer k u \<in> set qsb \<longrightarrow>
       Suc i \<le> k \<and> k < Suc i + n \<and> \<not> success_report (rs1b ! (k - Suc i))"
    "successful s' + successful t1 \<le> successful t' + successful s1"
    unfolding repeats_def by blast
  from a(1) obtain x where x: "rs1a = [x]"
    by (cases rs1a) auto
  from a(2) obtain y where y: "rs2a = [y]"
    by (cases rs2a) auto
  have rep: "success_report ((x # rs1b) ! j) \<longrightarrow> (y # rs2b) ! j = AlreadyExists"
    if "j < Suc n" for j
  proof (cases j)
    case 0
    then show ?thesis using a(7) x y by simp
  next
    case (Suc j')
    then show ?thesis using b(7) that by simp
  qed
  have tr: "i \<le> k \<and> k < i + Suc n \<and> \<not> success_report ((x # rs1b) ! (k - i))"
    if "Transfer k u \<in> set (qsa @ qsb)" for k u
  proof (cases "Transfer k u \<in> set qsa")
    case True
    with a(8) have "i \<le> k \<and> k < i + 1 \<and> \<not> success_report (rs1a ! (k - i))"
      by blast
    then show ?thesis using x by auto
  next
    case False
    with that have "Transfer k u \<in> set qsb" by simp
    with b(8) have k: "Suc i \<le> k" "k < Suc i + n" "\<not> success_report (rs1b ! (k - Suc i))"
      by blast+
    from k(1) have "k - i = Suc (k - Suc i)" by simp
    then have "(x # rs1b) ! (k - i) = rs1b ! (k - Suc i)" by simp
    with k show ?thesis by simp
  qed
  have "length (x # rs1b) = Suc n \<and> length (y # rs2b) = Suc n \<and>
        reports s' = reports s @ x # rs1b \<and> reports t' = reports t @ y # rs2b \<and>
        requests t' = requests t @ qsa @ qsb \<and> files t' = files t \<and>
        (\<forall>j < Suc n. success_report ((x # rs1b) ! j) \<longrightarrow> (y # rs2b) ! j = AlreadyExists) \<and>
        (\<forall>k u. Transfer k u \<in> set (qsa @ qsb) \<longrightarrow>
           i \<le> k \<and> k < i + Suc n \<and> \<not> success_report ((x # rs1b) ! (k - i))) \<and>
        successful s' + successful t \<le> successful t' + successful s"
  proof (intro conjI)
    show "length (x # rs1b) = Suc n" using b(1) by simp
    show "length (y # rs2b) = Suc n" using b(2) by simp
    show "reports s' = reports s @ x # rs1b" using a(3) b(3) x by simp
    show "reports t' = reports t @ y # rs2b" using a(4) b(4) y by simp
    show "requests t' = requests t @ qsa @ qsb" using a(5) b(5) by simp
    show "files t' = files t" using a(6) b(6) by simp
    show "\<forall>j < Suc n. success_report ((x # rs1b) ! j) \<longrightarrow> (y # rs2b) ! j = AlreadyExists"
      using rep by blast
    show "\<forall>k u. Transfer k u \<in> set (qsa @ qsb) \<longrightarrow>
        i \<le> k \<and> k < i + Suc n \<and> \<not> success_report ((x # rs1b) ! (k - i))"
      using tr by blast
    show "successful s' + successful t \<le> successful t' + successful s"
      using a(9) b(9) by linarith
  qed
  then show ?thesis
    unfolding repeats_def by blast
qed

lemma download_loop_repeats:
  assumes "download_loop world allowed i ms s = (s', None)" and "files s' \<subseteq> files t"
  shows "\<exists>t'. download_loop world allowed i ms t = (t', None) \<and>
           repeats i (length ms) s s' t t'"
  using assms
proof (induction ms arbitrary: i s t)
  case Nil
  then show ?case by (simp add: repeats_Nil)
next
  case (Cons m ms)
  obtain s1 r1 where p: "process_model world allowed i m s = (s1, r1)"
    by (cases "process_model world allowed i m s")
  have r1: "r1 = None"
    using Cons.prems(1) p by (cases r1) simp_all
  have rest: "download_loop world allowed (Suc i) ms s1 = (s', None)"
    using Cons.prems(1) p r1 by simp
  have "files s1 \<subseteq> files s'"
    using rest by (rule download_loop_files)
  then have "files s1 \<subseteq> files t"
    using Cons.prems(2) by blast
  with p r1 obtain t1 where
    t1: "process_model world allowed i m t = (t1, None)" "repeats i 1 s s1 t t1"
    using process_model_repeats by blast
  have "files t1 = files t"
    using t1(2) unfolding repeats_def by blast
  then have "files s' \<subseteq> files t1"
    using Cons.prems(2) by simp
  with rest obtain t' where
    t': "download_loop world allowed (Suc i) ms t1 = (t', None)"
      "repeats (Suc i) (length ms) s1 s' t1 t'"
    using Cons.IH by blast
  have "download_loop world allowed i (m # ms) t = (t', None)"
    using t1(1) t'(1) by simp
  moreover have "repeats i (length (m # ms)) s s' t t'"
    using repeats_Suc [OF t1(2) t'(2)] by simp
  ultimately show ?case by blast
qed

text \<open>
  C8. When a run has reached its summary and the downloader runs again against the same
  service, on the directory as the first run left it, the second run reaches its
  summary on the same catalog and leaves the set of files as it is; every entry that the
  first run counted as successful is reported as already existing, no transfer request
  is issued for such an entry, and the second run counts at least as many entries as
  successful as the first.
\<close>

theorem second_run_idempotent:
  assumes "download_author_models world api_token username licenses on_disk
             = Some (Summary, models, first)"
  shows "\<exists>second.
           download_author_models world api_token username licenses (files first)
             = Some (Summary, models, second) \<and>
           files second = files first \<and>
           (\<forall>j < length models.
              success_report (reports first ! j) \<longrightarrow> reports second ! j = AlreadyExists) \<and>
           (\<forall>k u. Transfer k u \<in> set (requests second) \<longrightarrow>
              1 \<le> k \<and> k \<le> length models \<and> \<not> success_report (reports first ! (k - 1))) \<and>
           successful first \<le> successful second"
proof -
  from download_author_models_Summary [OF assms] obtain issued where
    fetched: "get_user_models world username = Some (issued, Inr models)"
    and token: "api_token \<noteq> None" "api_token \<noteq> Some []"
    and some: "models \<noteq> []"
    and meta: "open_file world 0 ''models_metadata.json'' = None"
    and loop: "download_loop world (tokens_of licenses) 1 models (starting issued on_disk)
                 = (first, None)"
    by blast
  have "files (starting issued on_disk) \<subseteq> files first"
    using loop by (rule download_loop_files)
  then have disk: "files (starting issued (files first)) = files first"
    by (auto simp add: starting_def)
  then have "files first \<subseteq> files (starting issued (files first))"
    by simp
  with loop obtain second where
    again: "download_loop world (tokens_of licenses) 1 models (starting issued (files first))
              = (second, None)"
    and rep: "repeats 1 (length models) (starting issued on_disk) first
                (starting issued (files first)) second"
    using download_loop_repeats by blast
  from rep obtain rs1 rs2 qs where r:
    "reports first = rs1" "reports second = rs2" "requests second = issued @ qs"
    "files second = files (starting issued (files first))"
    "\<forall>j < length models. success_report (rs1 ! j) \<longrightarrow> rs2 ! j = AlreadyExists"
    "\<forall>k u. Transfer k u \<in> set qs \<longrightarrow>
       1 \<le> k \<and> k < 1 + length models \<and> \<not> success_report (rs1 ! (k - 1))"
    "successful first \<le> successful second"
    unfolding repeats_def by (auto simp add: starting_def)
  have listing: "Transfer k u \<notin> set issued" for k u
    using get_user_models_requests [OF fetched] by force
  have "download_author_models world api_token username licenses (files first)
          = Some (Summary, models, second)"
    using fetched token some meta again by (rule download_author_models_reached)
  moreover have "files second = files first"
    using r(4) disk by simp
  moreover have "\<forall>j < length models.
      success_report (reports first ! j) \<longrightarrow> reports second ! j = AlreadyExists"
    using r(1,2,5) by simp
  moreover have "\<forall>k u. Transfer k u \<in> set (requests second) \<longrightarrow>
      1 \<le> k \<and> k \<le> length models \<and> \<not> success_report (reports first ! (k - 1))"
    using r(1,3,6) listing by auto
  ultimately show ?thesis
    using r(7) by blast
qed

text \<open>
  The second run of \<open>two_pages\<close>, on the two files its first run left: the same two
  files, and the first entry reported as already existing.
\<close>

theorem second_run_idempotent_witness:
  "\<exists>second.
     download_author_models two_pages (Some ''token'') ''bob'' None
         {''RobotModelv2_a1.zip'', ''models_metadata.json''}
       = Some (Summary, [robot, castle, statue], second) \<and>
     files second = {''RobotModelv2_a1.zip'', ''models_metadata.json''} \<and>
     reports second ! 0 = AlreadyExists \<and>
     1 \<le> successful second"
proof -
  from second_run_idempotent [OF two_pages_run] obtain second where s:
    "download_author_models two_pages (Some ''token'') ''bob'' None
         {''RobotModelv2_a1.zip'', ''models_metadata.json''}
       = Some (Summary, [robot, castle, statue], second)"
    "files second = {''RobotModelv2_a1.zip'', ''models_metadata.json''}"
    "\<forall>j < length [robot, castle, statue].
       success_report ([Saved, SkippedLicense, NotDownloadable] ! j) \<longrightarrow>
       reports second ! j = AlreadyExists"
    "1 \<le> successful second"
    by auto
  from s(3) have "reports second ! 0 = AlreadyExists"
    by (simp add: success_report_def)
  with s(1,2,4) show ?thesis by blast
qed


end
